theory Spec2Isabelle
  imports Main "HOL-Library.AList"
begin

section \<open>Constants of package pipelines\<close>

text \<open>
  \<^verbatim>\<open>const DATA_BUCKET_FOR_ALL_PLUGIN_INSTANCE = "*"\<close> (pipelines.go, line 12) and the
  constant block of lines 145-151. \<^verbatim>\<open>type StatisticsKind string\<close> is a named string
  type: every string converts to it, so it is modelled as a wrapper around \<open>string\<close>.
  The last constant of the block has an expression of its own and no type, so it is an
  untyped string constant, not a \<open>StatisticsKind\<close>.
\<close>

definition DATA_BUCKET_FOR_ALL_PLUGIN_INSTANCE :: string where
  "DATA_BUCKET_FOR_ALL_PLUGIN_INSTANCE = ''*''"

datatype StatisticsKind = StatisticsKind string

definition SuccessStatistics :: StatisticsKind where
  "SuccessStatistics = StatisticsKind ''SuccessStatistics''"

definition FailureStatistics :: StatisticsKind where
  "FailureStatistics = StatisticsKind ''FailureStatistics''"

definition AllStatistics :: StatisticsKind where
  "AllStatistics = StatisticsKind ''AllStatistics''"

definition STATISTICS_INDICATOR_FOR_ALL_PLUGIN_INSTANCE :: string where
  "STATISTICS_INDICATOR_FOR_ALL_PLUGIN_INSTANCE = ''*''"

section \<open>The Go runtime: outcomes of a call, channels, maps\<close>

text \<open>
  What a call does, seen from the goroutine that makes it: it returns a value, it panics
  (the panic can still be recovered by a deferred function of the same goroutine), it
  blocks forever, or the process is terminated by the unrecovered panic of another
  goroutine.
\<close>

datatype 'a exec = Returns 'a | Panics string | Blocks | Crashes string

text \<open>
  A channel value is a reference into a heap of channel objects, or nil (\<open>None\<close>).
  The object records the capacity given to \<^verbatim>\<open>make\<close>, the buffered values, whether
  \<^verbatim>\<open>close\<close> was called, and (as a ghost field) every value a receiver has taken out
  of it, oldest first.
\<close>

type_synonym chan_ref = nat

record 'r chan =
  cap :: nat
  buf :: "'r list"
  closed :: bool
  received :: "'r list"

definition make_chan :: "nat \<Rightarrow> 'r chan list \<Rightarrow> chan_ref \<times> 'r chan list" where
  "make_chan n h = (length h, h @ [\<lparr>cap = n, buf = [], closed = False, received = []\<rparr>])"

text \<open>
  \<^verbatim>\<open>close(ch)\<close>: closing a nil channel or a closed channel panics. A reference
  outside the heap cannot exist in Go; the model makes it a panic as well instead of
  reading the list out of range.
\<close>

definition close_chan :: "chan_ref option \<Rightarrow> 'r chan list \<Rightarrow> unit exec \<times> 'r chan list" where
  "close_chan ch h =
     (case ch of
        None \<Rightarrow> (Panics ''close of nil channel'', h)
      | Some c \<Rightarrow>
          if length h \<le> c then (Panics ''invalid channel reference'', h)
          else if closed (h ! c) then (Panics ''close of closed channel'', h)
          else (Returns (), h[c := (h ! c)\<lparr>closed := True\<rparr>]))"

text \<open>
  Whether the send case of a \<^verbatim>\<open>select\<close> can proceed: never on a nil channel; on a
  closed channel it proceeds (into a panic); otherwise it needs a goroutine blocked in a
  receive, or room in the buffer.
\<close>

definition send_can_proceed :: "chan_ref option \<Rightarrow> bool \<Rightarrow> 'r chan list \<Rightarrow> bool" where
  "send_can_proceed ch receiver h =
     (case ch of
        None \<Rightarrow> False
      | Some c \<Rightarrow>
          if length h \<le> c then False
          else closed (h ! c) \<or> receiver \<or> length (buf (h ! c)) < cap (h ! c))"

text \<open>
  The send itself, once it can proceed: a panic on a closed channel, a direct hand-over
  to the waiting receiver, or a place in the buffer.
\<close>

definition chan_send :: "chan_ref \<Rightarrow> 'r \<Rightarrow> bool \<Rightarrow> 'r chan list \<Rightarrow> unit exec \<times> 'r chan list" where
  "chan_send c v receiver h =
     (if closed (h ! c) then (Panics ''send on closed channel'', h)
      else if receiver then (Returns (), h[c := (h ! c)\<lparr>received := received (h ! c) @ [v]\<rparr>])
      else (Returns (), h[c := (h ! c)\<lparr>buf := buf (h ! c) @ [v]\<rparr>]))"

text \<open>
  \<^verbatim>\<open>v, ok := <-ch\<close>, seen from the receiver. A nil channel never delivers; a
  buffered value is taken first; a closed and drained channel yields the zero value with
  \<open>ok = false\<close> (\<open>Returns None\<close>) at once. Otherwise the receiver waits for a sender:
  the list gives, for each time it looks, the value a sender is offering at that moment
  (if any), and a list that ends without an offer stands for a wait that never ends.
\<close>

fun chan_recv :: "chan_ref option \<Rightarrow> 'r option list \<Rightarrow> 'r chan list \<Rightarrow> 'r option exec \<times> 'r chan list" where
  "chan_recv None offers h = (Blocks, h)"
| "chan_recv (Some c) offers h =
     (if length h \<le> c then (Blocks, h)
      else case buf (h ! c) of
        v # vs \<Rightarrow> (Returns (Some v), h[c := (h ! c)\<lparr>buf := vs, received := received (h ! c) @ [v]\<rparr>])
      | [] \<Rightarrow>
          if closed (h ! c) then (Returns None, h)
          else (case offers of
                  [] \<Rightarrow> (Blocks, h)
                | Some v # rest \<Rightarrow>
                    (Returns (Some v), h[c := (h ! c)\<lparr>received := received (h ! c) @ [v]\<rparr>])
                | None # rest \<Rightarrow> chan_recv (Some c) rest h))"

text \<open>
  A map value \<^verbatim>\<open>map[interface{}]interface{}\<close> is a reference into a heap of map
  objects, or nil. A map object is the list of its entries. What the runtime does with a
  key held in an \<^verbatim>\<open>interface{}\<close> depends on the dynamic value: a slice, a map or
  a function (alone or inside a struct or an array) cannot be hashed, and every map
  operation on it panics; a value that is not equal to itself (a floating-point NaN,
  alone or inside a struct or an array) hashes, but is never found again; every other key
  is found by \<^verbatim>\<open>==\<close>, which for these keys is the equality of \<open>'i\<close>. The
  classification of the values is a parameter \<open>kind\<close> of the operations.
\<close>

type_synonym map_ref = "nat option"

datatype key_kind = Comparable | NeverEqual | Unhashable

text \<open>
  \<^verbatim>\<open>m[k] = v\<close>: a nil map panics first, then the key is hashed. A key that is never
  equal to itself adds one more entry each time; another key replaces the value of its
  entry or adds one.
\<close>

definition map_store ::
  "('i \<Rightarrow> key_kind) \<Rightarrow> map_ref \<Rightarrow> 'i \<Rightarrow> 'i \<Rightarrow> ('i \<times> 'i) list list
     \<Rightarrow> unit exec \<times> ('i \<times> 'i) list list" where
  "map_store kind m k v mh =
     (case m of
        None \<Rightarrow> (Panics ''assignment to entry in nil map'', mh)
      | Some a \<Rightarrow>
          if length mh \<le> a then (Panics ''invalid map reference'', mh)
          else (case kind k of
                  Unhashable \<Rightarrow> (Panics ''runtime error: hash of unhashable type'', mh)
                | NeverEqual \<Rightarrow> (Returns (), mh[a := (mh ! a) @ [(k, v)]])
                | Comparable \<Rightarrow> (Returns (), mh[a := AList.update k v (mh ! a)])))"

text \<open>
  \<^verbatim>\<open>delete(m, k)\<close>: the key is checked also when the map is nil; a key that is never
  equal to itself matches no entry; a nil map has nothing to delete.
\<close>

definition map_delete ::
  "('i \<Rightarrow> key_kind) \<Rightarrow> map_ref \<Rightarrow> 'i \<Rightarrow> ('i \<times> 'i) list list
     \<Rightarrow> unit exec \<times> ('i \<times> 'i) list list" where
  "map_delete kind m k mh =
     (case kind k of
        Unhashable \<Rightarrow> (Panics ''runtime error: hash of unhashable type'', mh)
      | NeverEqual \<Rightarrow> (Returns (), mh)
      | Comparable \<Rightarrow>
          (case m of
             None \<Rightarrow> (Returns (), mh)
           | Some a \<Rightarrow>
               if length mh \<le> a then (Returns (), mh)
               else (Returns (), mh[a := AList.delete k (mh ! a)])))"

text \<open>
  \<^verbatim>\<open>v, ok := m[k]\<close>: \<open>Returns None\<close> stands for \<open>ok = false\<close>. The key is checked
  also when the map is nil; a key that is never equal to itself is not found.
\<close>

definition map_load ::
  "('i \<Rightarrow> key_kind) \<Rightarrow> map_ref \<Rightarrow> 'i \<Rightarrow> ('i \<times> 'i) list list \<Rightarrow> 'i option exec" where
  "map_load kind m k mh =
     (case kind k of
        Unhashable \<Rightarrow> Panics ''runtime error: hash of unhashable type''
      | NeverEqual \<Rightarrow> Returns None
      | Comparable \<Rightarrow>
          (case m of
             None \<Rightarrow> Returns None
           | Some a \<Rightarrow> if length mh \<le> a then Returns None else Returns (map_of (mh ! a) k)))"

text \<open>The entries a \<^verbatim>\<open>range\<close> over the map goes through (in some order).\<close>

definition map_entries :: "map_ref \<Rightarrow> ('i \<times> 'i) list list \<Rightarrow> ('i \<times> 'i) list" where
  "map_entries m mh =
     (case m of
        None \<Rightarrow> []
      | Some a \<Rightarrow> if length mh \<le> a then [] else mh ! a)"

section \<open>DownstreamRequest\<close>

text \<open>
  The struct of pipelines.go, lines 59-64. \<open>responseChanLock\<close> is the state of the
  \<^verbatim>\<open>sync.Mutex\<close> (\<open>True\<close> when locked; the zero value is unlocked). A request is
  used through a pointer, so the state the methods work on is the object together with
  the two heaps its references point into. The type \<open>'r\<close> stands for the values of
  \<^verbatim>\<open>*UpstreamResponse\<close>, which no method inspects, and \<open>'i\<close> for \<^verbatim>\<open>interface{}\<close>.
\<close>

record DownstreamRequest =
  upstreamPipelineName :: string
  downstreamPipelineName :: string
  data :: map_ref
  responseChanLock :: bool
  responseChan :: "chan_ref option"

record ('r, 'i) world =
  req :: DownstreamRequest
  chans :: "'r chan list"
  mapheap :: "('i \<times> 'i) list list"

text \<open>\<^verbatim>\<open>NewDownstreamRequest\<close>, lines 66-80: the only allocation is \<^verbatim>\<open>make(chan *UpstreamResponse, 0)\<close>.\<close>

definition NewDownstreamRequest ::
  "string \<Rightarrow> string \<Rightarrow> map_ref \<Rightarrow> 'r chan list \<Rightarrow> ('i \<times> 'i) list list \<Rightarrow> ('r, 'i) world" where
  "NewDownstreamRequest up down m h mh =
     (case make_chan 0 h of
        (c, h') \<Rightarrow>
          \<lparr>req = \<lparr>upstreamPipelineName = up, downstreamPipelineName = down, data = m,
                  responseChanLock = False, responseChan = Some c\<rparr>,
           chans = h', mapheap = mh\<rparr>)"

text \<open>The accessors, lines 82-92 and 120-122.\<close>

definition UpstreamPipelineName :: "DownstreamRequest \<Rightarrow> string" where
  "UpstreamPipelineName r = upstreamPipelineName r"

definition DownstreamPipelineName :: "DownstreamRequest \<Rightarrow> string" where
  "DownstreamPipelineName r = downstreamPipelineName r"

definition Data :: "DownstreamRequest \<Rightarrow> map_ref" where
  "Data r = data r"

definition Response :: "DownstreamRequest \<Rightarrow> chan_ref option" where
  "Response r = responseChan r"

text \<open>
  \<^verbatim>\<open>Close\<close>, lines 124-132, run without interruption: \<^verbatim>\<open>Lock\<close> (which waits for
  ever when nobody is left to unlock), the check, \<^verbatim>\<open>close\<close>, the assignment of nil,
  and the deferred \<^verbatim>\<open>Unlock\<close>, which also runs when \<^verbatim>\<open>close\<close> panics.
\<close>

definition set_lock :: "bool \<Rightarrow> ('r, 'i) world \<Rightarrow> ('r, 'i) world" where
  "set_lock b s = s\<lparr>req := (req s)\<lparr>responseChanLock := b\<rparr>\<rparr>"

definition Close :: "('r, 'i) world \<Rightarrow> unit exec \<times> ('r, 'i) world" where
  "Close s =
     (if responseChanLock (req s) then (Blocks, s)
      else
        let s1 = set_lock True s in
        if responseChan (req s1) \<noteq> None then
          (case close_chan (responseChan (req s1)) (chans s1) of
             (Returns u, h') \<Rightarrow>
               (Returns (), set_lock False (s1\<lparr>req := (req s1)\<lparr>responseChan := None\<rparr>, chans := h'\<rparr>))
           | (Panics msg, h') \<Rightarrow> (Panics msg, set_lock False (s1\<lparr>chans := h'\<rparr>))
           | (Blocks, h') \<Rightarrow> (Blocks, s1\<lparr>chans := h'\<rparr>)
           | (Crashes msg, h') \<Rightarrow> (Crashes msg, s1\<lparr>chans := h'\<rparr>))
        else (Returns (), set_lock False s1))"

text \<open>
  \<^verbatim>\<open>Respond\<close>, lines 94-118, blocks in a \<^verbatim>\<open>select\<close> on what other goroutines do.
  Their doings are a parameter of the model: a list with one entry for each time the
  blocked \<^verbatim>\<open>select\<close> looks at its two cases. An entry says whether a goroutine is
  blocked in a receive on the response channel, whether a receive from \<^verbatim>\<open>cancel\<close> can
  proceed, which case the runtime picks when both can, and whether another goroutine
  has run \<^verbatim>\<open>r.Close()\<close> since the last look. A list that ends before a case could
  proceed stands for a wait that never ends.
\<close>

text \<open>The three errors \<^verbatim>\<open>Respond\<close> builds with \<^verbatim>\<open>fmt.Errorf\<close> (lines 96, 105, 113).\<close>

definition was_closed_error :: "string \<Rightarrow> string" where
  "was_closed_error name = ''request from pipeline '' @ name @ '' was closed''"

definition is_closed_error :: "string \<Rightarrow> string" where
  "is_closed_error name = ''request from pipeline '' @ name @ '' is closed''"

definition cancelled_error :: string where
  "cancelled_error = ''response is canclled''"

record snapshot =
  receiver_waiting :: bool
  cancel_ready :: bool
  prefer_send :: bool
  closes_now :: bool

text \<open>
  The \<^verbatim>\<open>Close\<close> of another goroutine: if it panics, nothing recovers it there and the
  process is gone.
\<close>

definition other_goroutine_Close :: "bool \<Rightarrow> ('r, 'i) world \<Rightarrow> unit exec \<times> ('r, 'i) world" where
  "other_goroutine_Close b s =
     (if b then (case Close s of (Panics msg, s1) \<Rightarrow> (Crashes msg, s1) | (x, s1) \<Rightarrow> (x, s1))
      else (Returns (), s))"

datatype pick = PickSend chan_ref | PickCancel | PickNone

definition select_pick :: "chan_ref option \<Rightarrow> snapshot \<Rightarrow> 'r chan list \<Rightarrow> pick" where
  "select_pick ch e h =
     (case ch of
        None \<Rightarrow> if cancel_ready e then PickCancel else PickNone
      | Some c \<Rightarrow>
          if send_can_proceed (Some c) (receiver_waiting e) h then
            (if cancel_ready e then (if prefer_send e then PickSend c else PickCancel)
             else PickSend c)
          else if cancel_ready e then PickCancel
          else PickNone)"

text \<open>
  The \<^verbatim>\<open>select\<close> of lines 109-114. The channel operand \<open>ch\<close> was read from
  \<^verbatim>\<open>r.responseChan\<close> once, when the statement was entered.
\<close>

fun select_send ::
  "chan_ref option \<Rightarrow> 'r \<Rightarrow> snapshot list \<Rightarrow> ('r, 'i) world \<Rightarrow> string option exec \<times> ('r, 'i) world" where
  "select_send ch response [] s = (Blocks, s)"
| "select_send ch response (e # es) s =
     (case other_goroutine_Close (closes_now e) s of
        (Crashes msg, s1) \<Rightarrow> (Crashes msg, s1)
      | (x, s1) \<Rightarrow>
          (case select_pick ch e (chans s1) of
             PickSend c \<Rightarrow>
               (case chan_send c response (receiver_waiting e) (chans s1) of
                  (Returns u, h') \<Rightarrow> (Returns None, s1\<lparr>chans := h'\<rparr>)
                | (Panics msg, h') \<Rightarrow> (Panics msg, s1\<lparr>chans := h'\<rparr>)
                | (Blocks, h') \<Rightarrow> (Blocks, s1\<lparr>chans := h'\<rparr>)
                | (Crashes msg, h') \<Rightarrow> (Crashes msg, s1\<lparr>chans := h'\<rparr>))
           | PickCancel \<Rightarrow> (Returns (Some cancelled_error), s1)
           | PickNone \<Rightarrow> select_send ch response es s1))"

text \<open>
  \<open>race\<close> says whether another goroutine runs \<^verbatim>\<open>r.Close()\<close> between the nil check
  of line 95 and the moment the \<^verbatim>\<open>select\<close> reads \<^verbatim>\<open>r.responseChan\<close> again. The
  deferred function turns a panic of the closure into the returned error.
\<close>

definition Respond ::
  "'r \<Rightarrow> bool \<Rightarrow> snapshot list \<Rightarrow> ('r, 'i) world \<Rightarrow> string option exec \<times> ('r, 'i) world" where
  "Respond response race es s =
     (if responseChan (req s) = None then
        (Returns (Some (was_closed_error (downstreamPipelineName (req s)))), s)
      else
        (case other_goroutine_Close race s of
           (Crashes msg, s1) \<Rightarrow> (Crashes msg, s1)
         | (x, s1) \<Rightarrow>
             (case select_send (responseChan (req s1)) response es s1 of
                (Panics msg, s2) \<Rightarrow>
                  (Returns (Some (is_closed_error (downstreamPipelineName (req s2)))), s2)
              | (y, s2) \<Rightarrow> (y, s2))))"

section \<open>Sequences of calls on one request\<close>

datatype 'r op = OpRespond 'r bool "snapshot list" | OpClose

datatype result = RespondResult "string option exec" | CloseResult "unit exec"

fun apply_op :: "'r op \<Rightarrow> ('r, 'i) world \<Rightarrow> result \<times> ('r, 'i) world" where
  "apply_op (OpRespond response race es) s =
     (case Respond response race es s of (x, s1) \<Rightarrow> (RespondResult x, s1))"
| "apply_op OpClose s = (case Close s of (x, s1) \<Rightarrow> (CloseResult x, s1))"

fun fatal :: "'a exec \<Rightarrow> bool" where
  "fatal (Panics msg) = True"
| "fatal (Crashes msg) = True"
| "fatal (Returns x) = False"
| "fatal Blocks = False"

fun ends_process :: "result \<Rightarrow> bool" where
  "ends_process (RespondResult x) = fatal x"
| "ends_process (CloseResult x) = fatal x"

text \<open>The calls run one after the other; a panic that nothing recovers ends the run.\<close>

fun run :: "'r op list \<Rightarrow> ('r, 'i) world \<Rightarrow> result list \<times> ('r, 'i) world" where
  "run [] s = ([], s)"
| "run (a # as) s =
     (case apply_op a s of
        (x, s1) \<Rightarrow>
          if ends_process x then ([x], s1)
          else (case run as s1 of (xs, s2) \<Rightarrow> (x # xs, s2)))"

text \<open>
  The state of a request between calls: the mutex is free, and a response channel that
  is not nil is an open channel of the heap with capacity zero and nothing buffered.
\<close>

definition consistent :: "('r, 'i) world \<Rightarrow> bool" where
  "consistent s =
     (\<not> responseChanLock (req s) \<and>
      (case responseChan (req s) of
         None \<Rightarrow> True
       | Some c \<Rightarrow>
           c < length (chans s) \<and> \<not> closed (chans s ! c) \<and>
           cap (chans s ! c) = 0 \<and> buf (chans s ! c) = []))"

text \<open>
  What a call has handed to a receiver, read off its result: the response of a
  \<^verbatim>\<open>Respond\<close> that returned nil, and nothing otherwise.
\<close>

fun accepted :: "'r op \<Rightarrow> result \<Rightarrow> 'r list" where
  "accepted (OpRespond response race es) x =
     (if x = RespondResult (Returns None) then [response] else [])"
| "accepted OpClose x = []"

text \<open>Every value receivers have taken, over all channels of the heap.\<close>

definition delivered :: "('r, 'i) world \<Rightarrow> 'r list" where
  "delivered s = concat (map received (chans s))"

text \<open>
  What holds while the \<^verbatim>\<open>select\<close> of \<^verbatim>\<open>Respond\<close> waits with channel operand
  \<open>ch\<close>: the request is in a state between calls, and an operand that is not nil is
  either still the request's response channel or a channel that \<^verbatim>\<open>Close\<close> has closed
  since.
\<close>

definition select_ok :: "chan_ref option \<Rightarrow> ('r, 'i) world \<Rightarrow> bool" where
  "select_ok ch s =
     (consistent s \<and>
      (case ch of
         None \<Rightarrow> responseChan (req s) = None
       | Some c \<Rightarrow>
           c < length (chans s) \<and> cap (chans s ! c) = 0 \<and> buf (chans s ! c) = [] \<and>
           (if closed (chans s ! c) then responseChan (req s) = None
            else responseChan (req s) = Some c)))"

section \<open>Close, statement by statement, in several goroutines\<close>

text \<open>
  For calls of \<^verbatim>\<open>Close\<close> that overlap, the method is cut at its statements. A
  goroutine is at \<^verbatim>\<open>Lock\<close> (line 125), at the check (128), at \<^verbatim>\<open>close\<close> (129),
  at the assignment (130), at the deferred \<^verbatim>\<open>Unlock\<close>, or has returned. The
  goroutines share the request and the heaps. \<open>n_closed\<close> is a ghost counter of the
  \<^verbatim>\<open>close\<close> calls that went through, and \<open>crashed\<close> holds the panic that ended
  the process, if any.
\<close>

datatype pc = AtLock | AtCheck | AtCloseChan | AtSetNil | AtUnlock | Finished

record ('r, 'i) closers =
  shared :: "('r, 'i) world"
  pcs :: "pc list"
  n_closed :: nat
  crashed :: "string option"

definition start_closers :: "nat \<Rightarrow> ('r, 'i) world \<Rightarrow> ('r, 'i) closers" where
  "start_closers n s = \<lparr>shared = s, pcs = replicate n AtLock, n_closed = 0, crashed = None\<rparr>"

text \<open>
  One statement of goroutine \<open>i\<close>. A goroutine that waits for the mutex, one that has
  returned, and every goroutine of a crashed process leave the state as it is.
\<close>

definition close_step :: "nat \<Rightarrow> ('r, 'i) closers \<Rightarrow> ('r, 'i) closers" where
  "close_step i cs =
     (if crashed cs \<noteq> None \<or> length (pcs cs) \<le> i then cs
      else
        case pcs cs ! i of
          AtLock \<Rightarrow>
            if responseChanLock (req (shared cs)) then cs
            else cs\<lparr>shared := set_lock True (shared cs), pcs := (pcs cs)[i := AtCheck]\<rparr>
        | AtCheck \<Rightarrow>
            if responseChan (req (shared cs)) \<noteq> None then cs\<lparr>pcs := (pcs cs)[i := AtCloseChan]\<rparr>
            else cs\<lparr>pcs := (pcs cs)[i := AtUnlock]\<rparr>
        | AtCloseChan \<Rightarrow>
            (case close_chan (responseChan (req (shared cs))) (chans (shared cs)) of
               (Returns u, h') \<Rightarrow>
                 cs\<lparr>shared := (shared cs)\<lparr>chans := h'\<rparr>, pcs := (pcs cs)[i := AtSetNil],
                    n_closed := Suc (n_closed cs)\<rparr>
             | (Panics msg, h') \<Rightarrow>
                 cs\<lparr>shared := set_lock False (shared cs), pcs := (pcs cs)[i := Finished],
                    crashed := Some msg\<rparr>
             | (Blocks, h') \<Rightarrow> cs
             | (Crashes msg, h') \<Rightarrow> cs\<lparr>crashed := Some msg\<rparr>)
        | AtSetNil \<Rightarrow>
            cs\<lparr>shared := (shared cs)\<lparr>req := (req (shared cs))\<lparr>responseChan := None\<rparr>\<rparr>,
               pcs := (pcs cs)[i := AtUnlock]\<rparr>
        | AtUnlock \<Rightarrow>
            if responseChanLock (req (shared cs)) then
              cs\<lparr>shared := set_lock False (shared cs), pcs := (pcs cs)[i := Finished]\<rparr>
            else cs\<lparr>crashed := Some ''sync: unlock of unlocked mutex''\<rparr>
        | Finished \<Rightarrow> cs)"

text \<open>A schedule names the goroutine that runs next, step after step.\<close>

fun run_closers :: "nat list \<Rightarrow> ('r, 'i) closers \<Rightarrow> ('r, 'i) closers" where
  "run_closers [] cs = cs"
| "run_closers (i # sched) cs = run_closers sched (close_step i cs)"

definition all_finished :: "('r, 'i) closers \<Rightarrow> bool" where
  "all_finished cs = list_all (\<lambda>p. p = Finished) (pcs cs)"

text \<open>
  The invariant of the overlapping calls, relative to the state \<open>s0\<close> they started
  from and to the goroutine \<open>h\<close> that holds the mutex, if any. A goroutine is between
  \<^verbatim>\<open>Lock\<close> and \<^verbatim>\<open>Unlock\<close> exactly when it is the holder. The shared state is in one
  of three phases: nothing closed yet, the channel closed but the field not yet nil, and
  the state a single \<^verbatim>\<open>Close\<close> leaves behind.
\<close>

fun critical :: "pc \<Rightarrow> bool" where
  "critical AtLock = False"
| "critical AtCheck = True"
| "critical AtCloseChan = True"
| "critical AtSetNil = True"
| "critical AtUnlock = True"
| "critical Finished = False"

definition before_close :: "('r, 'i) world \<Rightarrow> nat option \<Rightarrow> ('r, 'i) closers \<Rightarrow> bool" where
  "before_close s0 h cs =
     (shared cs = set_lock (h \<noteq> None) s0 \<and> n_closed cs = 0 \<and>
      (\<forall>i < length (pcs cs). pcs cs ! i \<noteq> AtSetNil) \<and>
      (if responseChan (req s0) = None
       then \<forall>i < length (pcs cs). pcs cs ! i \<noteq> AtCloseChan
       else \<forall>i < length (pcs cs). pcs cs ! i \<noteq> AtUnlock \<and> pcs cs ! i \<noteq> Finished))"

definition just_closed :: "('r, 'i) world \<Rightarrow> nat option \<Rightarrow> ('r, 'i) closers \<Rightarrow> bool" where
  "just_closed s0 h cs =
     (\<exists>c i. responseChan (req s0) = Some c \<and> h = Some i \<and> pcs cs ! i = AtSetNil \<and>
        shared cs = set_lock True (s0\<lparr>chans := (chans s0)[c := (chans s0 ! c)\<lparr>closed := True\<rparr>]\<rparr>) \<and>
        n_closed cs = 1)"

definition after_close :: "('r, 'i) world \<Rightarrow> nat option \<Rightarrow> ('r, 'i) closers \<Rightarrow> bool" where
  "after_close s0 h cs =
     (responseChan (req s0) \<noteq> None \<and> shared cs = set_lock (h \<noteq> None) (snd (Close s0)) \<and>
      n_closed cs = 1 \<and>
      (\<forall>i < length (pcs cs). pcs cs ! i \<noteq> AtCloseChan \<and> pcs cs ! i \<noteq> AtSetNil))"

definition closers_inv :: "('r, 'i) world \<Rightarrow> nat \<Rightarrow> nat option \<Rightarrow> ('r, 'i) closers \<Rightarrow> bool" where
  "closers_inv s0 n h cs =
     (crashed cs = None \<and> length (pcs cs) = n \<and>
      (\<forall>i < n. critical (pcs cs ! i) = (h = Some i)) \<and>
      (case h of None \<Rightarrow> True | Some i \<Rightarrow> i < n) \<and>
      (before_close s0 h cs \<or> just_closed s0 h cs \<or> after_close s0 h cs))"

section \<open>Theorems\<close>

text \<open>
  C9. The sentinel plugin-instance id is the string \<open>*\<close>: both constants equal it and
  each other.
\<close>

theorem sentinel_instance_id_is_star:
  "DATA_BUCKET_FOR_ALL_PLUGIN_INSTANCE = ''*'' \<and>
   STATISTICS_INDICATOR_FOR_ALL_PLUGIN_INSTANCE = ''*'' \<and>
   DATA_BUCKET_FOR_ALL_PLUGIN_INSTANCE = STATISTICS_INDICATOR_FOR_ALL_PLUGIN_INSTANCE"
  by (simp add: DATA_BUCKET_FOR_ALL_PLUGIN_INSTANCE_def
      STATISTICS_INDICATOR_FOR_ALL_PLUGIN_INSTANCE_def)

subsection \<open>Close and Respond, one call\<close>

lemma set_lock_simps [simp]:
  "req (set_lock b s) = (req s)\<lparr>responseChanLock := b\<rparr>"
  "chans (set_lock b s) = chans s"
  "mapheap (set_lock b s) = mapheap s"
  by (simp_all add: set_lock_def)

lemma Close_nil:
  "\<not> responseChanLock (req s) \<Longrightarrow> responseChan (req s) = None \<Longrightarrow> Close s = (Returns (), s)"
  by (simp add: Close_def Let_def set_lock_def)

lemma Close_Returns:
  assumes "Close s = (Returns u, s1)"
  shows "responseChan (req s1) = None" and "\<not> responseChanLock (req s1)"
    and "downstreamPipelineName (req s1) = downstreamPipelineName (req s)"
  using assms
  by (auto simp: Close_def Let_def split: if_splits prod.splits exec.splits)

lemma Respond_nil:
  "responseChan (req s) = None \<Longrightarrow>
   Respond v race es s = (Returns (Some (was_closed_error (downstreamPipelineName (req s)))), s)"
  by (simp add: Respond_def)

lemma run_closed:
  assumes "responseChan (req s) = None" and "\<not> responseChanLock (req s)"
  shows "run ops s =
     (map (\<lambda>a. case a of
               OpRespond v race es \<Rightarrow>
                 RespondResult (Returns (Some (was_closed_error (downstreamPipelineName (req s)))))
             | OpClose \<Rightarrow> CloseResult (Returns ())) ops, s)"
proof (induction ops)
  case Nil
  show ?case by simp
next
  case (Cons a ops)
  show ?case
  proof (cases a)
    case (OpRespond v race es)
    then show ?thesis using Cons assms by (simp add: Respond_nil)
  next
    case OpClose
    then show ?thesis using Cons assms by (simp add: Close_nil)
  qed
qed

subsection \<open>A closed request\<close>

text \<open>
  C1. Once a call of \<^verbatim>\<open>Close\<close> has returned, every later call of \<^verbatim>\<open>Respond\<close>
  returns the non-nil error "request from pipeline ... was closed", whatever the other
  goroutines do meanwhile. It does not panic and does not block, and it leaves the request
  and the heaps as they are, so nothing is delivered. The same holds along every sequence
  of later calls of \<^verbatim>\<open>Respond\<close> and \<^verbatim>\<open>Close\<close>.
\<close>

theorem Respond_after_Close_is_closed_error:
  assumes "Close s = (Returns (), s1)"
  shows "Respond response race es s1 =
           (Returns (Some (was_closed_error (DownstreamPipelineName (req s)))), s1) \<and>
         run ops s1 =
           (map (\<lambda>a. case a of
                     OpRespond v r e \<Rightarrow>
                       RespondResult (Returns (Some (was_closed_error (DownstreamPipelineName (req s)))))
                   | OpClose \<Rightarrow> CloseResult (Returns ())) ops, s1) \<and>
         delivered (snd (run ops s1)) = delivered s1"
proof -
  have nil: "responseChan (req s1) = None" and free: "\<not> responseChanLock (req s1)"
    and name: "downstreamPipelineName (req s1) = downstreamPipelineName (req s)"
    using Close_Returns [OF assms] by simp_all
  have one: "Respond response race es s1 =
      (Returns (Some (was_closed_error (DownstreamPipelineName (req s)))), s1)"
    using Respond_nil [OF nil] name by (simp add: DownstreamPipelineName_def)
  have many: "run ops s1 =
      (map (\<lambda>a. case a of
                OpRespond v r e \<Rightarrow>
                  RespondResult (Returns (Some (was_closed_error (DownstreamPipelineName (req s)))))
              | OpClose \<Rightarrow> CloseResult (Returns ())) ops, s1)"
    using run_closed [OF nil free, of ops] unfolding name DownstreamPipelineName_def .
  from one many show ?thesis by simp
qed

theorem Respond_after_Close_is_closed_error_witness:
  "Close (NewDownstreamRequest ''ingest'' ''store'' None [] [] :: (nat, nat) world) =
     (Returns (), snd (Close (NewDownstreamRequest ''ingest'' ''store'' None [] []))) \<and>
   fst (run [OpRespond 7 False [\<lparr>receiver_waiting = True, cancel_ready = False,
                                 prefer_send = True, closes_now = False\<rparr>], OpClose,
             OpRespond 8 True []]
          (snd (Close (NewDownstreamRequest ''ingest'' ''store'' None [] [] :: (nat, nat) world)))) =
     [RespondResult (Returns (Some ''request from pipeline store was closed'')),
      CloseResult (Returns ()),
      RespondResult (Returns (Some ''request from pipeline store was closed''))]"
proof -
  have c: "Close (NewDownstreamRequest ''ingest'' ''store'' None [] [] :: (nat, nat) world) =
     (Returns (), snd (Close (NewDownstreamRequest ''ingest'' ''store'' None [] [])))"
    by (simp add: Close_def NewDownstreamRequest_def make_chan_def close_chan_def set_lock_def)
  show ?thesis
    using c Respond_after_Close_is_closed_error [OF c, of 7 False "[]"
        "[OpRespond 7 False [\<lparr>receiver_waiting = True, cancel_ready = False,
                                 prefer_send = True, closes_now = False\<rparr>], OpClose,
             OpRespond 8 True []]"]
    by (simp add: DownstreamPipelineName_def NewDownstreamRequest_def make_chan_def
        was_closed_error_def)
qed

subsection \<open>What no call changes\<close>

lemma close_chan_cases:
  "(\<exists>h'. close_chan ch h = (Returns (), h')) \<or> (\<exists>msg. close_chan ch h = (Panics msg, h))"
  by (simp add: close_chan_def split: option.splits)

lemma Close_frame:
  "req (snd (Close s)) = (req s)\<lparr>responseChan := responseChan (req (snd (Close s)))\<rparr> \<and>
   mapheap (snd (Close s)) = mapheap s"
  using close_chan_cases [of "responseChan (req s)" "chans s"]
  by (auto simp: Close_def Let_def)

lemma other_goroutine_Close_frame:
  "req (snd (other_goroutine_Close b s)) =
     (req s)\<lparr>responseChan := responseChan (req (snd (other_goroutine_Close b s)))\<rparr> \<and>
   mapheap (snd (other_goroutine_Close b s)) = mapheap s"
proof (cases b)
  case False
  then show ?thesis by (simp add: other_goroutine_Close_def)
next
  case True
  have "snd (other_goroutine_Close True s) = snd (Close s)"
    by (simp add: other_goroutine_Close_def split: prod.splits exec.splits)
  with True Close_frame [of s] show ?thesis by simp
qed

lemma frame_trans:
  assumes "req s1 = (req s)\<lparr>responseChan := c1\<rparr>" and "req s2 = (req s1)\<lparr>responseChan := c2\<rparr>"
  shows "req s2 = (req s)\<lparr>responseChan := responseChan (req s2)\<rparr>"
  using assms by simp

lemma select_send_frame:
  "req (snd (select_send ch v es s)) =
     (req s)\<lparr>responseChan := responseChan (req (snd (select_send ch v es s)))\<rparr> \<and>
   mapheap (snd (select_send ch v es s)) = mapheap s"
proof (induction es arbitrary: s)
  case Nil
  show ?case by simp
next
  case (Cons e es)
  obtain x s1 where og: "other_goroutine_Close (closes_now e) s = (x, s1)"
    by (cases "other_goroutine_Close (closes_now e) s")
  have f1: "req s1 = (req s)\<lparr>responseChan := responseChan (req s1)\<rparr>" "mapheap s1 = mapheap s"
    using other_goroutine_Close_frame [of "closes_now e" s] og by simp_all
  have ih: "req (snd (select_send ch v es s1)) =
      (req s1)\<lparr>responseChan := responseChan (req (snd (select_send ch v es s1)))\<rparr>"
    "mapheap (snd (select_send ch v es s1)) = mapheap s1"
    using Cons.IH [of s1] by simp_all
  have ih': "req (snd (select_send ch v es s1)) =
      (req s)\<lparr>responseChan := responseChan (req (snd (select_send ch v es s1)))\<rparr>"
    using frame_trans [OF f1(1) ih(1)] .
  show ?case
    using og f1 ih' ih(2)
    by (auto simp: chan_send_def split: exec.splits pick.splits prod.splits)
qed

lemma Respond_frame:
  "req (snd (Respond v race es s)) =
     (req s)\<lparr>responseChan := responseChan (req (snd (Respond v race es s)))\<rparr> \<and>
   mapheap (snd (Respond v race es s)) = mapheap s"
proof (cases "responseChan (req s) = None")
  case True
  then show ?thesis by (simp add: Respond_def)
next
  case False
  obtain x s1 where og: "other_goroutine_Close race s = (x, s1)"
    by (cases "other_goroutine_Close race s")
  have f1: "req s1 = (req s)\<lparr>responseChan := responseChan (req s1)\<rparr>" "mapheap s1 = mapheap s"
    using other_goroutine_Close_frame [of race s] og by simp_all
  let ?r = "select_send (responseChan (req s1)) v es s1"
  have f2: "req (snd ?r) = (req s1)\<lparr>responseChan := responseChan (req (snd ?r))\<rparr>"
    "mapheap (snd ?r) = mapheap s1"
    using select_send_frame [of "responseChan (req s1)" v es s1] by simp_all
  have f3: "req (snd ?r) = (req s)\<lparr>responseChan := responseChan (req (snd ?r))\<rparr>"
    using frame_trans [OF f1(1) f2(1)] .
  show ?thesis
    using False og f1 f3 f2(2)
    by (auto simp: Respond_def split: exec.splits prod.splits)
qed

lemma snd_apply_op [simp]:
  "snd (apply_op (OpRespond v race es) s) = snd (Respond v race es s)"
  "snd (apply_op OpClose s) = snd (Close s)"
  by (simp_all split: prod.splits)

lemma apply_op_frame:
  "req (snd (apply_op a s)) = (req s)\<lparr>responseChan := responseChan (req (snd (apply_op a s)))\<rparr> \<and>
   mapheap (snd (apply_op a s)) = mapheap s"
proof (cases a)
  case (OpRespond v race es)
  then show ?thesis using Respond_frame [of v race es s] by (simp del: apply_op.simps)
next
  case OpClose
  then show ?thesis using Close_frame [of s] by (simp del: apply_op.simps)
qed

lemma run_frame:
  "req (snd (run ops s)) = (req s)\<lparr>responseChan := responseChan (req (snd (run ops s)))\<rparr> \<and>
   mapheap (snd (run ops s)) = mapheap s"
proof (induction ops arbitrary: s)
  case Nil
  show ?case by simp
next
  case (Cons a ops)
  obtain x s1 where ap: "apply_op a s = (x, s1)" by (cases "apply_op a s")
  have f1: "req s1 = (req s)\<lparr>responseChan := responseChan (req s1)\<rparr>" "mapheap s1 = mapheap s"
    using apply_op_frame [of a s] ap by simp_all
  have f2: "req (snd (run ops s1)) = (req s1)\<lparr>responseChan := responseChan (req (snd (run ops s1)))\<rparr>"
    "mapheap (snd (run ops s1)) = mapheap s1"
    using Cons.IH [of s1] by simp_all
  have f3: "req (snd (run ops s1)) = (req s)\<lparr>responseChan := responseChan (req (snd (run ops s1)))\<rparr>"
    using frame_trans [OF f1(1) f2(1)] .
  show ?case
    using ap f1 f3 f2(2) by (auto split: prod.splits)
qed

subsection \<open>Identity and data of a request\<close>

text \<open>
  C6. Along every sequence of \<^verbatim>\<open>Respond\<close> and \<^verbatim>\<open>Close\<close> calls,
  \<^verbatim>\<open>UpstreamPipelineName()\<close>, \<^verbatim>\<open>DownstreamPipelineName()\<close> and \<^verbatim>\<open>Data()\<close> return what
  was given to \<^verbatim>\<open>NewDownstreamRequest\<close>. From any state, the calls change no field of
  the request but \<open>responseChan\<close> (the mutex is free again when a call is over), and
  they leave the contents of every map alone.
\<close>

theorem identity_fields_immutable:
  "UpstreamPipelineName (req (snd (run ops (NewDownstreamRequest up down m h mh)))) = up \<and>
   DownstreamPipelineName (req (snd (run ops (NewDownstreamRequest up down m h mh)))) = down \<and>
   Data (req (snd (run ops (NewDownstreamRequest up down m h mh)))) = m \<and>
   req (snd (run ops s)) = (req s)\<lparr>responseChan := responseChan (req (snd (run ops s)))\<rparr> \<and>
   mapheap (snd (run ops s)) = mapheap s"
proof -
  let ?s0 = "NewDownstreamRequest up down m h mh"
  have new: "upstreamPipelineName (req ?s0) = up" "downstreamPipelineName (req ?s0) = down"
    "data (req ?s0) = m"
    by (simp_all add: NewDownstreamRequest_def make_chan_def)
  have "req (snd (run ops ?s0)) = (req ?s0)\<lparr>responseChan := responseChan (req (snd (run ops ?s0)))\<rparr>"
    using run_frame [of ops ?s0] by simp
  then have fr: "req (snd (run ops ?s0)) = (req ?s0)\<lparr>responseChan := responseChan (req (snd (run ops ?s0)))\<rparr>" .
  have "upstreamPipelineName (req (snd (run ops ?s0))) = upstreamPipelineName (req ?s0)"
    using arg_cong [OF fr, of upstreamPipelineName] by simp
  moreover have "downstreamPipelineName (req (snd (run ops ?s0))) = downstreamPipelineName (req ?s0)"
    using arg_cong [OF fr, of downstreamPipelineName] by simp
  moreover have "data (req (snd (run ops ?s0))) = data (req ?s0)"
    using arg_cong [OF fr, of data] by simp
  ultimately show ?thesis using new run_frame [of ops s]
    by (simp add: UpstreamPipelineName_def DownstreamPipelineName_def Data_def)
qed

theorem identity_fields_immutable_witness:
  "UpstreamPipelineName (req (snd (run
      [OpRespond (1::nat) False [\<lparr>receiver_waiting = True, cancel_ready = False,
                                 prefer_send = True, closes_now = False\<rparr>],
       OpClose, OpRespond 2 False []]
      (NewDownstreamRequest ''ingest'' ''store'' (Some 0) [] [[] :: (nat \<times> nat) list])))) = ''ingest'' \<and>
   DownstreamPipelineName (req (snd (run
      [OpRespond (1::nat) False [\<lparr>receiver_waiting = True, cancel_ready = False,
                                 prefer_send = True, closes_now = False\<rparr>],
       OpClose, OpRespond 2 False []]
      (NewDownstreamRequest ''ingest'' ''store'' (Some 0) [] [[] :: (nat \<times> nat) list])))) = ''store'' \<and>
   Data (req (snd (run
      [OpRespond (1::nat) False [\<lparr>receiver_waiting = True, cancel_ready = False,
                                 prefer_send = True, closes_now = False\<rparr>],
       OpClose, OpRespond 2 False []]
      (NewDownstreamRequest ''ingest'' ''store'' (Some 0) [] [[] :: (nat \<times> nat) list])))) = Some 0"
  using identity_fields_immutable [of
      "[OpRespond (1::nat) False [\<lparr>receiver_waiting = True, cancel_ready = False,
                                 prefer_send = True, closes_now = False\<rparr>],
       OpClose, OpRespond 2 False []]" "''ingest''" "''store''" "Some 0" "[]"
      "[[] :: (nat \<times> nat) list]"
      "NewDownstreamRequest ''ingest'' ''store'' (Some 0) [] [[] :: (nat \<times> nat) list]"]
  by (simp del: run.simps)

lemma update_entry: "(k, v) \<in> set (AList.update k v al)"
  by (induction al) auto

text \<open>
  C8. \<^verbatim>\<open>Data()\<close> returns the very map reference \<open>m\<close> that was passed to
  \<^verbatim>\<open>NewDownstreamRequest\<close>, which allocates no map and copies none. So a store, a
  delete or a lookup through the returned map is the same operation on the same map
  object as through \<open>m\<close>, whatever the key: it panics or returns alike and leaves the
  same heap. An entry stored through the one is among the entries the other ranges over,
  and for a key that \<^verbatim>\<open>==\<close> can find, a lookup through the one finds what was stored
  through the other and finds nothing after a delete.
\<close>

theorem Data_is_the_callers_map:
  "Data (req (NewDownstreamRequest up down m h mh)) = m \<and>
   mapheap (NewDownstreamRequest up down m h mh) = mh \<and>
   map_store kind (Data (req (NewDownstreamRequest up down m h mh))) k v mh1 =
     map_store kind m k v mh1 \<and>
   map_delete kind (Data (req (NewDownstreamRequest up down m h mh))) k mh1 =
     map_delete kind m k mh1 \<and>
   map_load kind (Data (req (NewDownstreamRequest up down m h mh))) k mh1 =
     map_load kind m k mh1 \<and>
   (map_store kind (Data (req (NewDownstreamRequest up down m h mh))) k v mh1 = (Returns (), mh2)
      \<longrightarrow> (k, v) \<in> set (map_entries m mh2)) \<and>
   (map_store kind m k v mh1 = (Returns (), mh2)
      \<longrightarrow> (k, v) \<in> set (map_entries (Data (req (NewDownstreamRequest up down m h mh))) mh2)) \<and>
   (kind k = Comparable \<and>
    map_store kind (Data (req (NewDownstreamRequest up down m h mh))) k v mh1 = (Returns (), mh2)
      \<longrightarrow> map_load kind m k mh2 = Returns (Some v)) \<and>
   (kind k = Comparable \<and> map_store kind m k v mh1 = (Returns (), mh2)
      \<longrightarrow> map_load kind (Data (req (NewDownstreamRequest up down m h mh))) k mh2 = Returns (Some v)) \<and>
   (kind k = Comparable \<and>
    map_delete kind (Data (req (NewDownstreamRequest up down m h mh))) k mh1 = (Returns (), mh2)
      \<longrightarrow> map_load kind m k mh2 = Returns None) \<and>
   (kind k = Comparable \<and> map_delete kind m k mh1 = (Returns (), mh2)
      \<longrightarrow> map_load kind (Data (req (NewDownstreamRequest up down m h mh))) k mh2 = Returns None)"
proof -
  have d: "Data (req (NewDownstreamRequest up down m h mh)) = m"
    and mhp: "mapheap (NewDownstreamRequest up down m h mh) = mh"
    by (simp_all add: Data_def NewDownstreamRequest_def make_chan_def)
  have ent: "(k, v) \<in> set (map_entries m mh2)" if "map_store kind m k v mh1 = (Returns (), mh2)"
    using that update_entry [of k v]
    by (auto simp: map_store_def map_entries_def split: option.splits if_splits key_kind.splits)
  have st: "map_load kind m k mh2 = Returns (Some v)"
    if "kind k = Comparable" "map_store kind m k v mh1 = (Returns (), mh2)"
    using that
    by (auto simp: map_store_def map_load_def AList.update_conv' split: option.splits if_splits)
  have de: "map_load kind m k mh2 = Returns None"
    if "kind k = Comparable" "map_delete kind m k mh1 = (Returns (), mh2)"
    using that
    by (auto simp: map_delete_def map_load_def AList.delete_conv' split: option.splits if_splits)
  show ?thesis unfolding d using mhp ent st de by simp
qed

theorem Data_is_the_callers_map_witness:
  "map_store (\<lambda>k. if k = ''nan'' then NeverEqual else Comparable)
      (Data (req (NewDownstreamRequest ''ingest'' ''store'' (Some 0) [] [[]])))
      ''id'' ''x'' [[(''nan'', ''y'')]] = (Returns (), [[(''nan'', ''y''), (''id'', ''x'')]]) \<and>
   map_load (\<lambda>k. if k = ''nan'' then NeverEqual else Comparable)
      (Some 0) ''id'' [[(''nan'', ''y''), (''id'', ''x'')]] = Returns (Some ''x'') \<and>
   (''id'', ''x'') \<in> set (map_entries (Some 0) [[(''nan'', ''y''), (''id'', ''x'')]])"
  using Data_is_the_callers_map [of "''ingest''" "''store''" "Some 0" "[]" "[[]]"
      "\<lambda>k. if k = ''nan'' then NeverEqual else Comparable"
      "''id''" "''x''" "[[(''nan'', ''y'')]]" "[[(''nan'', ''y''), (''id'', ''x'')]]"]
  by (simp add: Data_def NewDownstreamRequest_def make_chan_def map_store_def)

subsection \<open>The state between calls\<close>

lemma NewDownstreamRequest_consistent: "consistent (NewDownstreamRequest up down m h mh)"
  by (simp add: consistent_def NewDownstreamRequest_def make_chan_def)

lemma Close_open:
  assumes "consistent s" and "responseChan (req s) = Some c"
  shows "Close s =
    (Returns (), s\<lparr>req := (req s)\<lparr>responseChan := None\<rparr>,
                   chans := (chans s)[c := (chans s ! c)\<lparr>closed := True\<rparr>]\<rparr>)"
  using assms by (simp add: Close_def Let_def close_chan_def consistent_def set_lock_def)

lemma Close_consistent:
  assumes "consistent s"
  shows "fst (Close s) = Returns ()" and "consistent (snd (Close s))"
   and "responseChan (req (snd (Close s))) = None"
proof -
  show "fst (Close s) = Returns ()"
  proof (cases "responseChan (req s)")
    case None
    then show ?thesis using assms Close_nil [of s] by (simp add: consistent_def)
  next
    case (Some c)
    then show ?thesis using Close_open [OF assms Some] by simp
  qed
  show "consistent (snd (Close s))"
  proof (cases "responseChan (req s)")
    case None
    then show ?thesis using assms Close_nil [of s] by (simp add: consistent_def)
  next
    case (Some c)
    then show ?thesis using Close_open [OF assms Some] assms by (simp add: consistent_def)
  qed
  show "responseChan (req (snd (Close s))) = None"
  proof (cases "responseChan (req s)")
    case None
    then show ?thesis using assms Close_nil [of s] by (simp add: consistent_def)
  next
    case (Some c)
    then show ?thesis using Close_open [OF assms Some] by simp
  qed
qed

subsection \<open>The response channel after Close\<close>

text \<open>
  C7. After \<^verbatim>\<open>Close\<close> has returned, \<^verbatim>\<open>Response()\<close> returns nil, not the closed
  channel: a receive from what it returns blocks for ever, whatever senders offer. A
  receive from the channel that \<^verbatim>\<open>Response()\<close> returned before the \<^verbatim>\<open>Close\<close> sees the
  closure at once (the zero value with \<open>ok = false\<close>).
\<close>

theorem Response_is_nil_after_Close:
  assumes "consistent s" and "Close s = (Returns (), s1)"
  shows "Response (req s1) = None \<and>
         chan_recv (Response (req s1)) offers (chans s1) = (Blocks, chans s1) \<and>
         (Response (req s) \<noteq> None \<longrightarrow>
            chan_recv (Response (req s)) offers (chans s1) = (Returns None, chans s1))"
proof -
  have nil: "Response (req s1) = None"
    using Close_Returns(1) [OF assms(2)] by (simp add: Response_def)
  have old: "chan_recv (Response (req s)) offers (chans s1) = (Returns None, chans s1)"
    if "Response (req s) \<noteq> None"
  proof -
    from that obtain c where c: "responseChan (req s) = Some c"
      by (auto simp: Response_def)
    have "chans s1 = (chans s)[c := (chans s ! c)\<lparr>closed := True\<rparr>]"
      using Close_open [OF assms(1) c] assms(2) by auto
    moreover have "c < length (chans s)" "buf (chans s ! c) = []"
      using assms(1) c by (simp_all add: consistent_def)
    ultimately show ?thesis using c by (simp add: Response_def)
  qed
  from nil old show ?thesis by simp
qed

theorem Response_is_nil_after_Close_witness:
  "consistent (NewDownstreamRequest ''ingest'' ''store'' None [] [] :: (nat, nat) world) \<and>
   Close (NewDownstreamRequest ''ingest'' ''store'' None [] [] :: (nat, nat) world) =
     (Returns (), snd (Close (NewDownstreamRequest ''ingest'' ''store'' None [] []))) \<and>
   Response (req (NewDownstreamRequest ''ingest'' ''store'' None [] [] :: (nat, nat) world)) = Some 0 \<and>
   Response (req (snd (Close (NewDownstreamRequest ''ingest'' ''store'' None [] [] :: (nat, nat) world)))) = None \<and>
   fst (chan_recv None [Some 5]
         (chans (snd (Close (NewDownstreamRequest ''ingest'' ''store'' None [] [] :: (nat, nat) world))))) = Blocks \<and>
   fst (chan_recv (Some 0) [Some 5]
         (chans (snd (Close (NewDownstreamRequest ''ingest'' ''store'' None [] [] :: (nat, nat) world))))) =
     Returns None"
proof -
  let ?s = "NewDownstreamRequest ''ingest'' ''store'' None [] [] :: (nat, nat) world"
  have w: "consistent ?s"
    by (simp add: consistent_def NewDownstreamRequest_def make_chan_def)
  have c: "Close ?s = (Returns (), snd (Close ?s))"
    by (simp add: Close_def NewDownstreamRequest_def make_chan_def close_chan_def set_lock_def)
  have r: "Response (req ?s) = Some 0"
    by (simp add: Response_def NewDownstreamRequest_def make_chan_def)
  show ?thesis
    using w c r Response_is_nil_after_Close [OF w c, of "[Some 5]"]
    by simp
qed

subsection \<open>The select of Respond\<close>

lemma delivered_close:
  "c < length h \<Longrightarrow> concat (map received (h[c := (h ! c)\<lparr>closed := True\<rparr>])) = concat (map received h)"
  by (induction h arbitrary: c) (auto simp: nth_Cons split: nat.splits)

lemma delivered_send:
  "c < length h \<Longrightarrow>
   length (concat (map received (h[c := (h ! c)\<lparr>received := received (h ! c) @ [v]\<rparr>]))) =
     Suc (length (concat (map received h)))"
  by (induction h arbitrary: c) (auto simp: nth_Cons split: nat.splits)

lemma Close_delivered: "consistent s \<Longrightarrow> delivered (snd (Close s)) = delivered s"
proof (cases "responseChan (req s)")
  case None
  assume "consistent s"
  with None show ?thesis using Close_nil [of s] by (simp add: consistent_def)
next
  case (Some c)
  assume w: "consistent s"
  then have "c < length (chans s)" using Some by (simp add: consistent_def)
  then show ?thesis using Close_open [OF w Some] by (simp add: delivered_def delivered_close)
qed

lemma other_goroutine_Close_consistent:
  assumes "consistent s"
  shows "other_goroutine_Close b s = (Returns (), if b then snd (Close s) else s)"
proof (cases b)
  case False
  then show ?thesis by (simp add: other_goroutine_Close_def)
next
  case True
  obtain s1 where "Close s = (Returns (), s1)"
    using Close_consistent(1) [OF assms] by (cases "Close s") simp
  with True show ?thesis by (simp add: other_goroutine_Close_def)
qed

lemma select_ok_consistent: "select_ok ch s \<Longrightarrow> consistent s"
  by (simp add: select_ok_def)

lemma select_ok_Close:
  assumes "select_ok ch s"
  shows "select_ok ch (snd (Close s))"
proof (cases "responseChan (req s)")
  case None
  then show ?thesis using assms Close_nil [of s] by (simp add: select_ok_def consistent_def)
next
  case (Some c)
  have w: "consistent s" using assms by (rule select_ok_consistent)
  show ?thesis
    using assms Some Close_open [OF w Some] Close_consistent(2) [OF w]
    by (auto simp: select_ok_def split: option.splits if_splits)
qed

lemma select_ok_other:
  assumes "select_ok ch s"
  shows "select_ok ch (if b then snd (Close s) else s)"
  using assms select_ok_Close [OF assms] by simp

lemma select_ok_entry:
  assumes "consistent s"
  shows "select_ok (responseChan (req s)) s"
  using assms by (auto simp: select_ok_def consistent_def split: option.splits)

lemma select_pick_send:
  assumes "select_ok ch s" and "select_pick ch e (chans s) = PickSend c"
  shows "ch = Some c" and "c < length (chans s)"
    and "\<not> closed (chans s ! c) \<Longrightarrow> receiver_waiting e"
  using assms
  by (auto simp: select_pick_def select_ok_def send_can_proceed_def split: option.splits if_splits)

lemma select_send_step:
  assumes "select_ok ch s"
  shows "select_send ch v (e # es) s =
    (case select_pick ch e (chans (if closes_now e then snd (Close s) else s)) of
       PickSend c \<Rightarrow>
         if closed (chans (if closes_now e then snd (Close s) else s) ! c)
         then (Panics ''send on closed channel'', if closes_now e then snd (Close s) else s)
         else (Returns None,
               (if closes_now e then snd (Close s) else s)
                 \<lparr>chans := (chans (if closes_now e then snd (Close s) else s))
                     [c := (chans (if closes_now e then snd (Close s) else s) ! c)
                        \<lparr>received := received (chans (if closes_now e then snd (Close s) else s) ! c) @ [v]\<rparr>]\<rparr>)
     | PickCancel \<Rightarrow> (Returns (Some cancelled_error), if closes_now e then snd (Close s) else s)
     | PickNone \<Rightarrow> select_send ch v es (if closes_now e then snd (Close s) else s))"
proof -
  define s1 where "s1 = (if closes_now e then snd (Close s) else s)"
  have og: "other_goroutine_Close (closes_now e) s = (Returns (), s1)"
    using other_goroutine_Close_consistent [OF select_ok_consistent [OF assms]] by (simp add: s1_def)
  have ok1: "select_ok ch s1"
    using select_ok_other [OF assms] by (simp add: s1_def)
  have "select_send ch v (e # es) s =
    (case select_pick ch e (chans s1) of
       PickSend c \<Rightarrow>
         if closed (chans s1 ! c) then (Panics ''send on closed channel'', s1)
         else (Returns None,
               s1\<lparr>chans := (chans s1)[c := (chans s1 ! c)\<lparr>received := received (chans s1 ! c) @ [v]\<rparr>]\<rparr>)
     | PickCancel \<Rightarrow> (Returns (Some cancelled_error), s1)
     | PickNone \<Rightarrow> select_send ch v es s1)"
  proof (cases "select_pick ch e (chans s1)")
    case (PickSend c)
    show ?thesis
    proof (cases "closed (chans s1 ! c)")
      case True
      then show ?thesis using og PickSend by (simp add: chan_send_def)
    next
      case False
      then have "receiver_waiting e" using select_pick_send(3) [OF ok1 PickSend] by simp
      with False show ?thesis using og PickSend by (simp add: chan_send_def)
    qed
  next
    case PickCancel
    then show ?thesis using og by simp
  next
    case PickNone
    then show ?thesis using og by simp
  qed
  then show ?thesis unfolding s1_def .
qed

lemma select_send_ok:
  assumes "select_ok ch s"
  shows "select_ok ch (snd (select_send ch v es s)) \<and>
         length (delivered (snd (select_send ch v es s))) =
           length (delivered s) + (if fst (select_send ch v es s) = Returns None then 1 else 0) \<and>
         (\<forall>msg. fst (select_send ch v es s) \<noteq> Crashes msg)"
  using assms
proof (induction es arbitrary: s)
  case Nil
  then show ?case by simp
next
  case (Cons e es)
  define s1 where "s1 = (if closes_now e then snd (Close s) else s)"
  have ok1: "select_ok ch s1"
    using select_ok_other [OF Cons.prems] by (simp add: s1_def)
  have d1: "delivered s1 = delivered s"
    using Close_delivered [OF select_ok_consistent [OF Cons.prems]] by (simp add: s1_def)
  note step = select_send_step [OF Cons.prems, of v e es, folded s1_def]
  show ?case
  proof (cases "select_pick ch e (chans s1)")
    case (PickSend c)
    have c: "ch = Some c" "c < length (chans s1)"
      using select_pick_send(1,2) [OF ok1 PickSend] by simp_all
    show ?thesis
    proof (cases "closed (chans s1 ! c)")
      case True
      then show ?thesis using step PickSend ok1 d1 by simp
    next
      case False
      have "select_ok ch (s1\<lparr>chans := (chans s1)[c := (chans s1 ! c)\<lparr>received := received (chans s1 ! c) @ [v]\<rparr>]\<rparr>)"
        using ok1 c False by (auto simp: select_ok_def consistent_def split: option.splits if_splits)
      moreover have "length (delivered (s1\<lparr>chans := (chans s1)[c := (chans s1 ! c)\<lparr>received := received (chans s1 ! c) @ [v]\<rparr>]\<rparr>)) =
          Suc (length (delivered s))"
        using delivered_send [OF c(2)] d1 by (simp add: delivered_def)
      ultimately show ?thesis using step PickSend False by simp
    qed
  next
    case PickCancel
    then show ?thesis using step ok1 d1 by simp
  next
    case PickNone
    then show ?thesis using step Cons.IH [OF ok1] d1 by simp
  qed
qed

lemma Respond_open:
  assumes "consistent s" and "responseChan (req s) \<noteq> None"
  shows "Respond v race es s =
    (case select_send (responseChan (req (if race then snd (Close s) else s))) v es
            (if race then snd (Close s) else s) of
       (Panics msg, s2) \<Rightarrow> (Returns (Some (is_closed_error (downstreamPipelineName (req s2)))), s2)
     | (y, s2) \<Rightarrow> (y, s2))"
proof -
  from assms(2) obtain c where "responseChan (req s) = Some c" by auto
  then show ?thesis
    using other_goroutine_Close_consistent [OF assms(1), of race]
    by (simp add: Respond_def)
qed

lemma Respond_ok:
  assumes "consistent s"
  shows "consistent (snd (Respond v race es s)) \<and>
         length (delivered (snd (Respond v race es s))) =
           length (delivered s) + (if fst (Respond v race es s) = Returns None then 1 else 0) \<and>
         \<not> fatal (fst (Respond v race es s))"
proof (cases "responseChan (req s) = None")
  case True
  then show ?thesis using assms by (simp add: Respond_nil)
next
  case False
  define s1 where "s1 = (if race then snd (Close s) else s)"
  have w1: "consistent s1" using assms Close_consistent(2) [OF assms] by (simp add: s1_def)
  have d1: "delivered s1 = delivered s" using Close_delivered [OF assms] by (simp add: s1_def)
  have ok: "select_ok (responseChan (req s1)) s1" using select_ok_entry [OF w1] .
  obtain x s2 where sel: "select_send (responseChan (req s1)) v es s1 = (x, s2)"
    by (cases "select_send (responseChan (req s1)) v es s1")
  have p: "select_ok (responseChan (req s1)) s2"
    "length (delivered s2) = length (delivered s1) + (if x = Returns None then 1 else 0)"
    "\<forall>msg. x \<noteq> Crashes msg"
    using select_send_ok [OF ok, of v es] sel by simp_all
  have r: "Respond v race es s =
    (case (x, s2) of
       (Panics msg, s2) \<Rightarrow> (Returns (Some (is_closed_error (downstreamPipelineName (req s2)))), s2)
     | (y, s2) \<Rightarrow> (y, s2))"
    using Respond_open [OF assms False, of v race es] sel by (simp add: s1_def)
  show ?thesis
    using r p d1 select_ok_consistent [OF p(1)] by (cases x) auto
qed

lemma apply_op_ok:
  assumes "consistent s"
  shows "consistent (snd (apply_op a s)) \<and>
         length (delivered (snd (apply_op a s))) =
           length (delivered s) + (if fst (apply_op a s) = RespondResult (Returns None) then 1 else 0) \<and>
         \<not> ends_process (fst (apply_op a s))"
proof (cases a)
  case (OpRespond v race es)
  then show ?thesis
    using Respond_ok [OF assms, of v race es] by (cases "Respond v race es s") auto
next
  case OpClose
  then show ?thesis
    using Close_consistent [OF assms] Close_delivered [OF assms] by (cases "Close s") auto
qed

lemma run_ok:
  assumes "consistent s"
  shows "consistent (snd (run ops s)) \<and>
         length (fst (run ops s)) = length ops \<and>
         length (delivered (snd (run ops s))) =
           length (delivered s) +
           length (filter (\<lambda>x. x = RespondResult (Returns None)) (fst (run ops s)))"
  using assms
proof (induction ops arbitrary: s)
  case Nil
  then show ?case by simp
next
  case (Cons a ops)
  obtain x s1 where ap: "apply_op a s = (x, s1)" by (cases "apply_op a s")
  have p: "consistent s1"
    "length (delivered s1) = length (delivered s) + (if x = RespondResult (Returns None) then 1 else 0)"
    "\<not> ends_process x"
    using apply_op_ok [OF Cons.prems, of a] ap by simp_all
  obtain xs s2 where r: "run ops s1 = (xs, s2)" by (cases "run ops s1")
  have ih: "consistent s2" "length xs = length ops"
    "length (delivered s2) = length (delivered s1) + length (filter (\<lambda>x. x = RespondResult (Returns None)) xs)"
    using Cons.IH [OF p(1)] r by simp_all
  show ?case using ap p r ih by simp
qed

lemma select_send_delivers:
  assumes "select_ok ch s" and "select_send ch v es s = (Returns None, s')"
  shows "\<exists>c pre e post. ch = Some c \<and> responseChan (req s) = Some c \<and>
           es = pre @ e # post \<and> receiver_waiting e \<and>
           select_send ch v pre s = (Blocks, s) \<and>
           s' = s\<lparr>chans := (chans s)[c := (chans s ! c)\<lparr>received := received (chans s ! c) @ [v]\<rparr>]\<rparr>"
  using assms
proof (induction es arbitrary: s)
  case Nil
  then show ?case by simp
next
  case (Cons e es)
  define s1 where "s1 = (if closes_now e then snd (Close s) else s)"
  have w: "consistent s" using Cons.prems(1) by (rule select_ok_consistent)
  have ok1: "select_ok ch s1"
    using select_ok_other [OF Cons.prems(1)] by (simp add: s1_def)
  have same: "s1 = s" if "responseChan (req s1) \<noteq> None"
    using that Close_consistent(3) [OF w] by (simp add: s1_def split: if_splits)
  note step = select_send_step [OF Cons.prems(1), of v e es, folded s1_def]
  show ?case
  proof (cases "select_pick ch e (chans s1)")
    case (PickSend c)
    have c: "ch = Some c" "c < length (chans s1)"
      using select_pick_send(1,2) [OF ok1 PickSend] by simp_all
    have notcl: "\<not> closed (chans s1 ! c)"
      using step PickSend Cons.prems(2) by (auto split: if_splits)
    then have rc: "responseChan (req s1) = Some c"
      using ok1 c by (simp add: select_ok_def)
    then have eq: "s1 = s" using same by simp
    have rw: "receiver_waiting e" using select_pick_send(3) [OF ok1 PickSend notcl] .
    have "s' = s\<lparr>chans := (chans s)[c := (chans s ! c)\<lparr>received := received (chans s ! c) @ [v]\<rparr>]\<rparr>"
      using step PickSend notcl Cons.prems(2) eq by simp
    moreover have "e # es = [] @ e # es" by simp
    moreover have "select_send ch v [] s = (Blocks, s)" by simp
    moreover have "responseChan (req s) = Some c" using rc eq by simp
    ultimately show ?thesis using c(1) rw
      by (intro exI [of _ c] exI [of _ "[]"] exI [of _ e] exI [of _ es] conjI)
  next
    case PickCancel
    then show ?thesis using step Cons.prems(2) by simp
  next
    case PickNone
    then have rec: "select_send ch v es s1 = (Returns None, s')"
      using step Cons.prems(2) by simp
    from Cons.IH [OF ok1 rec] obtain c pre e' post where
      ih: "ch = Some c" "responseChan (req s1) = Some c" "es = pre @ e' # post"
        "receiver_waiting e'" "select_send ch v pre s1 = (Blocks, s1)"
        "s' = s1\<lparr>chans := (chans s1)[c := (chans s1 ! c)\<lparr>received := received (chans s1 ! c) @ [v]\<rparr>]\<rparr>"
      by blast
    have eq: "s1 = s" using same ih(2) by simp
    have "select_send ch v (e # pre) s = select_send ch v pre s1"
      using select_send_step [OF Cons.prems(1), of v e pre, folded s1_def] PickNone
      by simp
    then have "select_send ch v (e # pre) s = (Blocks, s)"
      using ih(5) eq by simp
    moreover have "e # es = (e # pre) @ e' # post" using ih(3) by simp
    moreover have "responseChan (req s) = Some c" using ih(2) eq by simp
    moreover have "s' = s\<lparr>chans := (chans s)[c := (chans s ! c)\<lparr>received := received (chans s ! c) @ [v]\<rparr>]\<rparr>"
      using ih(6) eq by simp
    ultimately show ?thesis using ih(1,4)
      by (intro exI [of _ c] exI [of _ "e # pre"] exI [of _ e'] exI [of _ post] conjI)
  qed
qed

lemma Respond_delivers:
  assumes "consistent s" and "Respond v race es s = (Returns None, s')"
  shows "\<exists>c pre e post. responseChan (req s) = Some c \<and>
           es = pre @ e # post \<and> receiver_waiting e \<and>
           Respond v race pre s = (Blocks, s) \<and>
           s' = s\<lparr>chans := (chans s)[c := (chans s ! c)\<lparr>received := received (chans s ! c) @ [v]\<rparr>]\<rparr>"
proof -
  have nn: "responseChan (req s) \<noteq> None"
    using assms(2) Respond_nil [of s v race es] by auto
  define s1 where "s1 = (if race then snd (Close s) else s)"
  have w1: "consistent s1" using assms(1) Close_consistent(2) [OF assms(1)] by (simp add: s1_def)
  have ok: "select_ok (responseChan (req s1)) s1" using select_ok_entry [OF w1] .
  note ro = Respond_open [OF assms(1) nn, of v race, folded s1_def]
  have sel: "select_send (responseChan (req s1)) v es s1 = (Returns None, s')"
    using ro [of es] assms(2)
    by (cases "select_send (responseChan (req s1)) v es s1")
       (auto split: exec.splits)
  from select_send_delivers [OF ok sel] obtain c pre e post where
    d: "responseChan (req s1) = Some c" "es = pre @ e # post" "receiver_waiting e"
       "select_send (responseChan (req s1)) v pre s1 = (Blocks, s1)"
       "s' = s1\<lparr>chans := (chans s1)[c := (chans s1 ! c)\<lparr>received := received (chans s1 ! c) @ [v]\<rparr>]\<rparr>"
    by blast
  have eq: "s1 = s"
    using d(1) Close_consistent(3) [OF assms(1)] by (simp add: s1_def split: if_splits)
  have "Respond v race pre s = (Blocks, s)"
    using ro [of pre] d(4) eq by simp
  moreover have "responseChan (req s) = Some c" using d(1) eq by simp
  moreover have "s' = s\<lparr>chans := (chans s)[c := (chans s ! c)\<lparr>received := received (chans s ! c) @ [v]\<rparr>]\<rparr>"
    using d(5) eq by simp
  ultimately show ?thesis using d(2,3)
    by (intro exI [of _ c] exI [of _ pre] exI [of _ e] exI [of _ post] conjI)
qed

lemma select_send_cancelled:
  assumes "consistent s" and "responseChan (req s) = Some c"
    and "\<forall>x \<in> set (pre @ [e]). \<not> receiver_waiting x \<and> \<not> closes_now x"
    and "cancel_ready e"
  shows "select_send (Some c) v (pre @ e # post) s = (Returns (Some cancelled_error), s)"
  using assms(3)
proof (induction pre)
  case Nil
  have ok: "select_ok (Some c) s"
    using select_ok_entry [OF assms(1)] assms(2) by simp
  have "\<not> receiver_waiting e" "\<not> closes_now e" using Nil by simp_all
  moreover from this have "select_pick (Some c) e (chans s) = PickCancel"
    using assms(1,2,4) by (simp add: select_pick_def send_can_proceed_def consistent_def)
  ultimately show ?case using select_send_step [OF ok, of v e post] by simp
next
  case (Cons x pre)
  have ok: "select_ok (Some c) s"
    using select_ok_entry [OF assms(1)] assms(2) by simp
  have x: "\<not> receiver_waiting x" "\<not> closes_now x" using Cons.prems by simp_all
  have rest: "\<forall>x \<in> set (pre @ [e]). \<not> receiver_waiting x \<and> \<not> closes_now x"
    using Cons.prems by simp
  have "select_pick (Some c) x (chans s) = (if cancel_ready x then PickCancel else PickNone)"
    using assms(1,2) x by (simp add: select_pick_def send_can_proceed_def consistent_def)
  then have "select_send (Some c) v (x # pre @ e # post) s =
      (if cancel_ready x then (Returns (Some cancelled_error), s)
       else select_send (Some c) v (pre @ e # post) s)"
    using select_send_step [OF ok, of v x "pre @ e # post"] x by simp
  then show ?case using Cons.IH [OF rest] by simp
qed

subsection \<open>The response channel is only ever set to nil\<close>

lemma req_step:
  assumes "req s1 = req s \<or> req s1 = (req s)\<lparr>responseChan := None\<rparr>"
    and "req s2 = req s1 \<or> req s2 = (req s1)\<lparr>responseChan := None\<rparr>"
  shows "req s2 = req s \<or> req s2 = (req s)\<lparr>responseChan := None\<rparr>"
  using assms by auto

lemma Close_req:
  "req (snd (Close s)) = req s \<or> req (snd (Close s)) = (req s)\<lparr>responseChan := None\<rparr>"
  using close_chan_cases [of "responseChan (req s)" "chans s"]
  by (auto simp: Close_def Let_def)

lemma other_goroutine_Close_req:
  "req (snd (other_goroutine_Close b s)) = req s \<or>
   req (snd (other_goroutine_Close b s)) = (req s)\<lparr>responseChan := None\<rparr>"
proof (cases b)
  case False
  then show ?thesis by (simp add: other_goroutine_Close_def)
next
  case True
  have "snd (other_goroutine_Close True s) = snd (Close s)"
    by (simp add: other_goroutine_Close_def split: prod.splits exec.splits)
  with True Close_req [of s] show ?thesis by simp
qed

lemma select_send_req:
  "req (snd (select_send ch v es s)) = req s \<or>
   req (snd (select_send ch v es s)) = (req s)\<lparr>responseChan := None\<rparr>"
proof (induction es arbitrary: s)
  case Nil
  show ?case by simp
next
  case (Cons e es)
  obtain x s1 where og: "other_goroutine_Close (closes_now e) s = (x, s1)"
    by (cases "other_goroutine_Close (closes_now e) s")
  have f1: "req s1 = req s \<or> req s1 = (req s)\<lparr>responseChan := None\<rparr>"
    using other_goroutine_Close_req [of "closes_now e" s] og by simp
  have ih: "req (snd (select_send ch v es s1)) = req s \<or>
      req (snd (select_send ch v es s1)) = (req s)\<lparr>responseChan := None\<rparr>"
    using req_step [OF f1 Cons.IH [of s1]] .
  show ?case
    using og f1 ih
    by (auto simp: chan_send_def split: exec.splits pick.splits prod.splits)
qed

lemma Respond_req:
  "req (snd (Respond v race es s)) = req s \<or>
   req (snd (Respond v race es s)) = (req s)\<lparr>responseChan := None\<rparr>"
proof (cases "responseChan (req s) = None")
  case True
  then show ?thesis by (simp add: Respond_def)
next
  case False
  obtain x s1 where og: "other_goroutine_Close race s = (x, s1)"
    by (cases "other_goroutine_Close race s")
  have f1: "req s1 = req s \<or> req s1 = (req s)\<lparr>responseChan := None\<rparr>"
    using other_goroutine_Close_req [of race s] og by simp
  have f2: "req (snd (select_send (responseChan (req s1)) v es s1)) = req s \<or>
      req (snd (select_send (responseChan (req s1)) v es s1)) = (req s)\<lparr>responseChan := None\<rparr>"
    using req_step [OF f1 select_send_req [of "responseChan (req s1)" v es s1]] .
  show ?thesis
    using False og f1 f2
    by (auto simp: Respond_def split: exec.splits prod.splits)
qed

lemma apply_op_req:
  "req (snd (apply_op a s)) = req s \<or> req (snd (apply_op a s)) = (req s)\<lparr>responseChan := None\<rparr>"
proof (cases a)
  case (OpRespond v race es)
  then show ?thesis using Respond_req [of v race es s] by (simp del: apply_op.simps)
next
  case OpClose
  then show ?thesis using Close_req [of s] by (simp del: apply_op.simps)
qed

lemma run_req:
  "req (snd (run ops s)) = req s \<or> req (snd (run ops s)) = (req s)\<lparr>responseChan := None\<rparr>"
proof (induction ops arbitrary: s)
  case Nil
  show ?case by simp
next
  case (Cons a ops)
  obtain x s1 where ap: "apply_op a s = (x, s1)" by (cases "apply_op a s")
  have f1: "req s1 = req s \<or> req s1 = (req s)\<lparr>responseChan := None\<rparr>"
    using apply_op_req [of a s] ap by simp
  have f2: "req (snd (run ops s1)) = req s \<or> req (snd (run ops s1)) = (req s)\<lparr>responseChan := None\<rparr>"
    using req_step [OF f1 Cons.IH [of s1]] .
  show ?case
    using ap f1 f2 by (auto split: prod.splits)
qed

subsection \<open>The unbuffered response channel\<close>

text \<open>
  C4. \<^verbatim>\<open>NewDownstreamRequest\<close> allocates exactly one channel, of capacity zero, and
  makes it the request's response channel. Whatever calls came before, a \<^verbatim>\<open>Respond\<close>
  that returns nil has run into a look of its \<^verbatim>\<open>select\<close> at which a receiver was
  waiting, the call being still blocked up to that look; the response went straight to
  that receiver and the buffer of the channel stayed empty.
\<close>

theorem response_channel_is_unbuffered:
  "responseChan (req (NewDownstreamRequest up down m h mh)) = Some (length h) \<and>
   chans (NewDownstreamRequest up down m h mh) =
     h @ [\<lparr>cap = 0, buf = [], closed = False, received = []\<rparr>] \<and>
   (Respond v race es (snd (run ops (NewDownstreamRequest up down m h mh))) = (Returns None, s')
    \<longrightarrow>
      (\<exists>pre e post. es = pre @ e # post \<and> receiver_waiting e \<and>
         fst (Respond v race pre (snd (run ops (NewDownstreamRequest up down m h mh)))) = Blocks) \<and>
      cap (chans s' ! length h) = 0 \<and> buf (chans s' ! length h) = [] \<and>
      received (chans s' ! length h) =
        received (chans (snd (run ops (NewDownstreamRequest up down m h mh))) ! length h) @ [v])"
proof -
  define s0 :: "('a, 'b) world" where "s0 = NewDownstreamRequest up down m h mh"
  define s where "s = snd (run ops s0)"
  have new: "responseChan (req s0) = Some (length h)"
    "chans s0 = h @ [\<lparr>cap = 0, buf = [], closed = False, received = []\<rparr>]"
    by (simp_all add: s0_def NewDownstreamRequest_def make_chan_def)
  have w: "consistent s"
    using run_ok [OF NewDownstreamRequest_consistent, of ops up down m h mh]
    by (simp add: s_def s0_def)
  have rc: "responseChan (req s) = Some (length h) \<or> responseChan (req s) = None"
    using run_req [of ops s0] new(1) by (auto simp: s_def)
  have "(\<exists>pre e post. es = pre @ e # post \<and> receiver_waiting e \<and>
           fst (Respond v race pre s) = Blocks) \<and>
        cap (chans s' ! length h) = 0 \<and> buf (chans s' ! length h) = [] \<and>
        received (chans s' ! length h) = received (chans s ! length h) @ [v]"
    if r: "Respond v race es s = (Returns None, s')"
  proof -
    from Respond_delivers [OF w r] obtain c pre e post where
      d: "responseChan (req s) = Some c" "es = pre @ e # post" "receiver_waiting e"
         "Respond v race pre s = (Blocks, s)"
         "s' = s\<lparr>chans := (chans s)[c := (chans s ! c)\<lparr>received := received (chans s ! c) @ [v]\<rparr>]\<rparr>"
      by blast
    have c: "c = length h" using rc d(1) by auto
    have v: "c < length (chans s)" "cap (chans s ! c) = 0" "buf (chans s ! c) = []"
      using w d(1) by (simp_all add: consistent_def)
    have "\<exists>pre e post. es = pre @ e # post \<and> receiver_waiting e \<and>
           fst (Respond v race pre s) = Blocks"
      using d(2,3,4) by (intro exI [of _ pre] exI [of _ e] exI [of _ post]) simp
    then show ?thesis using d(5) v c by simp
  qed
  then show ?thesis using new unfolding s_def s0_def by blast
qed

theorem response_channel_is_unbuffered_witness:
  "Respond (7::nat) False
     [\<lparr>receiver_waiting = False, cancel_ready = False, prefer_send = True, closes_now = False\<rparr>,
      \<lparr>receiver_waiting = True, cancel_ready = False, prefer_send = True, closes_now = False\<rparr>]
     (snd (run [] (NewDownstreamRequest ''ingest'' ''store'' None [] [] :: (nat, nat) world))) =
   (Returns None,
    \<lparr>req = \<lparr>upstreamPipelineName = ''ingest'', downstreamPipelineName = ''store'', data = None,
            responseChanLock = False, responseChan = Some 0\<rparr>,
     chans = [\<lparr>cap = 0, buf = [], closed = False, received = [7]\<rparr>], mapheap = []\<rparr>) \<and>
   fst (Respond (7::nat) False
     [\<lparr>receiver_waiting = False, cancel_ready = False, prefer_send = True, closes_now = False\<rparr>]
     (snd (run [] (NewDownstreamRequest ''ingest'' ''store'' None [] [] :: (nat, nat) world)))) = Blocks"
proof -
  let ?s = "NewDownstreamRequest ''ingest'' ''store'' None [] [] :: (nat, nat) world"
  let ?idle = "\<lparr>receiver_waiting = False, cancel_ready = False, prefer_send = True, closes_now = False\<rparr>"
  let ?take = "\<lparr>receiver_waiting = True, cancel_ready = False, prefer_send = True, closes_now = False\<rparr>"
  let ?s' = "\<lparr>req = \<lparr>upstreamPipelineName = ''ingest'', downstreamPipelineName = ''store'', data = None,
            responseChanLock = False, responseChan = Some 0\<rparr>,
     chans = [\<lparr>cap = 0, buf = [], closed = False, received = [7::nat]\<rparr>], mapheap = []\<rparr> :: (nat, nat) world"
  have r: "Respond 7 False [?idle, ?take] (snd (run [] ?s)) = (Returns None, ?s')"
    by (simp add: NewDownstreamRequest_def make_chan_def Respond_def other_goroutine_Close_def
      select_pick_def send_can_proceed_def chan_send_def)
  have b: "fst (Respond 7 False [?idle] (snd (run [] ?s))) = Blocks"
    by (simp add: NewDownstreamRequest_def make_chan_def Respond_def other_goroutine_Close_def
      select_pick_def send_can_proceed_def chan_send_def)
  show ?thesis
    using r b response_channel_is_unbuffered [of "''ingest''" "''store''" None "[]" "[]"
        7 False "[?idle, ?take]" "[]" ?s']
    by (simp del: run.simps)
qed

subsection \<open>Cancellation\<close>

text \<open>
  C5. On an open request that no other goroutine closes meanwhile: if at some look of
  the \<^verbatim>\<open>select\<close> a receive from \<^verbatim>\<open>cancel\<close> can proceed, and no receiver was
  waiting at that look or any earlier one, then \<^verbatim>\<open>Respond\<close> returns the non-nil error
  "response is canclled". It does not block, and it delivers nothing: the state is as
  before the call.
\<close>

theorem Respond_returns_on_cancel:
  assumes "consistent s" and "responseChan (req s) \<noteq> None"
    and "\<forall>x \<in> set (pre @ [e]). \<not> receiver_waiting x \<and> \<not> closes_now x"
    and "cancel_ready e"
  shows "Respond v False (pre @ e # post) s = (Returns (Some cancelled_error), s) \<and>
         delivered (snd (Respond v False (pre @ e # post) s)) = delivered s"
proof -
  from assms(2) obtain c where c: "responseChan (req s) = Some c" by auto
  have "select_send (Some c) v (pre @ e # post) s = (Returns (Some cancelled_error), s)"
    using select_send_cancelled [OF assms(1) c assms(3,4)] .
  then have "Respond v False (pre @ e # post) s = (Returns (Some cancelled_error), s)"
    using Respond_open [OF assms(1,2), of v False "pre @ e # post"] c by simp
  then show ?thesis by simp
qed

theorem Respond_returns_on_cancel_witness:
  "consistent (NewDownstreamRequest ''ingest'' ''store'' None [] [] :: (nat, nat) world) \<and>
   responseChan (req (NewDownstreamRequest ''ingest'' ''store'' None [] [] :: (nat, nat) world)) \<noteq> None \<and>
   Respond (7::nat) False
     [\<lparr>receiver_waiting = False, cancel_ready = False, prefer_send = True, closes_now = False\<rparr>,
      \<lparr>receiver_waiting = False, cancel_ready = True, prefer_send = True, closes_now = False\<rparr>,
      \<lparr>receiver_waiting = True, cancel_ready = False, prefer_send = True, closes_now = False\<rparr>]
     (NewDownstreamRequest ''ingest'' ''store'' None [] [] :: (nat, nat) world) =
   (Returns (Some ''response is canclled''),
    NewDownstreamRequest ''ingest'' ''store'' None [] [])"
proof -
  let ?s = "NewDownstreamRequest ''ingest'' ''store'' None [] [] :: (nat, nat) world"
  let ?idle = "\<lparr>receiver_waiting = False, cancel_ready = False, prefer_send = True, closes_now = False\<rparr>"
  let ?fire = "\<lparr>receiver_waiting = False, cancel_ready = True, prefer_send = True, closes_now = False\<rparr>"
  let ?late = "\<lparr>receiver_waiting = True, cancel_ready = False, prefer_send = True, closes_now = False\<rparr>"
  have w: "consistent ?s"
    by (simp add: consistent_def NewDownstreamRequest_def make_chan_def)
  have o: "responseChan (req ?s) \<noteq> None"
    by (simp add: NewDownstreamRequest_def make_chan_def)
  have q: "\<forall>x \<in> set ([?idle] @ [?fire]). \<not> receiver_waiting x \<and> \<not> closes_now x"
    by simp
  have f: "cancel_ready ?fire" by simp
  show ?thesis
    using w o Respond_returns_on_cancel [OF w o q f, of 7 "[?late]"]
    by (simp add: cancelled_error_def)
qed

subsection \<open>What each call delivers\<close>

lemma received_close:
  "c < length h \<Longrightarrow> map received (h[c := (h ! c)\<lparr>closed := True\<rparr>]) = map received h"
  by (induction h arbitrary: c) (auto simp: nth_Cons split: nat.splits)

lemma Close_received: "consistent s \<Longrightarrow> map received (chans (snd (Close s))) = map received (chans s)"
proof (cases "responseChan (req s)")
  case None
  assume "consistent s"
  with None show ?thesis using Close_nil [of s] by (simp add: consistent_def)
next
  case (Some c)
  assume w: "consistent s"
  then have "c < length (chans s)" using Some by (simp add: consistent_def)
  then show ?thesis using Close_open [OF w Some] by (simp add: received_close)
qed

lemma select_send_keeps:
  assumes "select_ok ch s" and "fst (select_send ch v es s) \<noteq> Returns None"
  shows "map received (chans (snd (select_send ch v es s))) = map received (chans s)"
  using assms
proof (induction es arbitrary: s)
  case Nil
  then show ?case by simp
next
  case (Cons e es)
  define s1 where "s1 = (if closes_now e then snd (Close s) else s)"
  have ok1: "select_ok ch s1"
    using select_ok_other [OF Cons.prems(1)] by (simp add: s1_def)
  have r1: "map received (chans s1) = map received (chans s)"
    using Close_received [OF select_ok_consistent [OF Cons.prems(1)]] by (simp add: s1_def)
  note step = select_send_step [OF Cons.prems(1), of v e es, folded s1_def]
  show ?case
  proof (cases "select_pick ch e (chans s1)")
    case (PickSend c)
    show ?thesis
    proof (cases "closed (chans s1 ! c)")
      case True
      then show ?thesis using step PickSend r1 by simp
    next
      case False
      then show ?thesis using step PickSend Cons.prems(2) by simp
    qed
  next
    case PickCancel
    then show ?thesis using step r1 by simp
  next
    case PickNone
    then have "fst (select_send ch v es s1) \<noteq> Returns None"
      using step Cons.prems(2) by simp
    from Cons.IH [OF ok1 this] show ?thesis using step PickNone r1 by simp
  qed
qed

lemma Respond_keeps:
  assumes "consistent s" and "fst (Respond v race es s) \<noteq> Returns None"
  shows "map received (chans (snd (Respond v race es s))) = map received (chans s)"
proof (cases "responseChan (req s) = None")
  case True
  then show ?thesis by (simp add: Respond_nil)
next
  case False
  define s1 where "s1 = (if race then snd (Close s) else s)"
  have w1: "consistent s1" using assms(1) Close_consistent(2) [OF assms(1)] by (simp add: s1_def)
  have r1: "map received (chans s1) = map received (chans s)"
    using Close_received [OF assms(1)] by (simp add: s1_def)
  have ok: "select_ok (responseChan (req s1)) s1" using select_ok_entry [OF w1] .
  obtain x s2 where sel: "select_send (responseChan (req s1)) v es s1 = (x, s2)"
    by (cases "select_send (responseChan (req s1)) v es s1")
  have r: "Respond v race es s =
    (case (x, s2) of
       (Panics msg, s2) \<Rightarrow> (Returns (Some (is_closed_error (downstreamPipelineName (req s2)))), s2)
     | (y, s2) \<Rightarrow> (y, s2))"
    using Respond_open [OF assms(1) False, of v race es] sel by (simp add: s1_def)
  have "x \<noteq> Returns None" using r assms(2) by (cases x) auto
  then have "map received (chans s2) = map received (chans s1)"
    using select_send_keeps [OF ok, of v es] sel by simp
  moreover have "snd (Respond v race es s) = s2" using r by (cases x) auto
  ultimately show ?thesis using r1 by simp
qed

lemma Respond_hands_over:
  assumes "consistent s" and "fst (Respond v race es s) = Returns None"
  shows "\<exists>c. responseChan (req s) = Some c \<and> c < length (chans s) \<and>
           req (snd (Respond v race es s)) = req s \<and>
           map received (chans (snd (Respond v race es s))) =
             (map received (chans s))[c := received (chans s ! c) @ [v]]"
proof -
  have r: "Respond v race es s = (Returns None, snd (Respond v race es s))"
    using assms(2) by (cases "Respond v race es s") simp
  from Respond_delivers [OF assms(1) r] obtain c where
    c: "responseChan (req s) = Some c"
    and s': "snd (Respond v race es s) =
      s\<lparr>chans := (chans s)[c := (chans s ! c)\<lparr>received := received (chans s ! c) @ [v]\<rparr>]\<rparr>"
    by blast
  have v: "c < length (chans s)" using assms(1) c by (simp add: consistent_def)
  have "map received (chans (snd (Respond v race es s))) =
      (map received (chans s))[c := received (chans s ! c) @ [v]]"
    unfolding s' by (simp add: map_update)
  moreover have "req (snd (Respond v race es s)) = req s" unfolding s' by simp
  ultimately show ?thesis using c v by simp
qed

lemma accepted_closed:
  "concat (map2 accepted ops
     (map (\<lambda>a. case a of
               OpRespond v race es \<Rightarrow> RespondResult (Returns (Some msg))
             | OpClose \<Rightarrow> CloseResult (Returns ())) ops)) = []"
  by (induction ops) (auto split: op.splits)

lemma run_closed_accepted:
  assumes "responseChan (req s) = None" and "\<not> responseChanLock (req s)"
  shows "concat (map2 accepted ops (fst (run ops s))) = []"
    and "snd (run ops s) = s"
  using run_closed [OF assms, of ops] accepted_closed [of ops] by simp_all


lemma received_same:
  "c < length h \<Longrightarrow> (map received h)[c := received (h ! c)] = map received h"
  by (induction h arbitrary: c) (auto simp: nth_Cons split: nat.splits)

lemma apply_op_received:
  assumes "consistent s"
  shows "(accepted a (fst (apply_op a s)) = [] \<and>
          map received (chans (snd (apply_op a s))) = map received (chans s)) \<or>
         (\<exists>c v. responseChan (req s) = Some c \<and> c < length (chans s) \<and>
            accepted a (fst (apply_op a s)) = [v] \<and>
            req (snd (apply_op a s)) = req s \<and>
            map received (chans (snd (apply_op a s))) =
              (map received (chans s))[c := received (chans s ! c) @ [v]])"
proof (cases a)
  case OpClose
  then show ?thesis using Close_received [OF assms] by (simp del: apply_op.simps)
next
  case (OpRespond v race es)
  have fs: "fst (apply_op a s) = RespondResult (fst (Respond v race es s))"
    using OpRespond by (cases "Respond v race es s") simp
  have sn: "snd (apply_op a s) = snd (Respond v race es s)"
    by (simp only: OpRespond snd_apply_op)
  show ?thesis
  proof (cases "fst (Respond v race es s) = Returns None")
    case True
    from Respond_hands_over [OF assms True] obtain c where
      "responseChan (req s) = Some c" "c < length (chans s)"
      "req (snd (Respond v race es s)) = req s"
      "map received (chans (snd (Respond v race es s))) =
             (map received (chans s))[c := received (chans s ! c) @ [v]]"
      by blast
    moreover have "accepted a (fst (apply_op a s)) = [v]"
      using OpRespond fs True by simp
    ultimately show ?thesis unfolding sn by blast
  next
    case False
    then have "accepted a (fst (apply_op a s)) = []" using OpRespond fs by simp
    then show ?thesis unfolding sn using Respond_keeps [OF assms False] by simp
  qed
qed

lemma run_received:
  assumes "consistent s"
  shows "map received (chans (snd (run ops s))) =
     (case responseChan (req s) of
        None \<Rightarrow> map received (chans s)
      | Some c \<Rightarrow>
          (map received (chans s))
            [c := received (chans s ! c) @ concat (map2 accepted ops (fst (run ops s)))])"
  using assms
proof (induction ops arbitrary: s)
  case Nil
  then show ?case
    by (auto simp: consistent_def received_same split: option.splits)
next
  case (Cons a ops)
  obtain x s1 where ap: "apply_op a s = (x, s1)" by (cases "apply_op a s")
  have p: "consistent s1" "\<not> ends_process x"
    using apply_op_ok [OF Cons.prems, of a] ap by simp_all
  obtain xs s2 where r: "run ops s1 = (xs, s2)" by (cases "run ops s1")
  have run_eq: "run (a # ops) s = (x # xs, s2)" using ap p(2) r by simp
  have acc: "concat (map2 accepted (a # ops) (x # xs)) = accepted a x @ concat (map2 accepted ops xs)"
    by simp
  note ih = Cons.IH [OF p(1), unfolded r, simplified]
  from apply_op_received [OF Cons.prems, of a, unfolded ap, simplified]
  show ?case
  proof (elim disjE conjE exE)
    assume a0: "accepted a x = []"
      and m1: "map received (chans s1) = map received (chans s)"
    have len: "length (chans s1) = length (chans s)"
      using arg_cong [OF m1, of length] by simp
    have rq: "req s1 = req s \<or> req s1 = (req s)\<lparr>responseChan := None\<rparr>"
      using apply_op_req [of a s] ap by simp
    show ?thesis
    proof (cases "responseChan (req s1)")
      case None
      have e: "concat (map2 accepted ops xs) = []" "s2 = s1"
        using run_closed_accepted [OF None, of ops] p(1) r by (simp_all add: consistent_def)
      have none: "concat (map2 accepted (a # ops) (x # xs)) = []"
        by (simp only: acc a0 e(1) append_Nil)
      show ?thesis
        unfolding run_eq fst_conv snd_conv none e(2)
        using m1 Cons.prems
        by (auto simp: consistent_def received_same split: option.splits)
    next
      case (Some c)
      then have same: "responseChan (req s) = Some c" using rq by auto
      have c: "c < length (chans s)" using Cons.prems same by (simp add: consistent_def)
      have "received (chans s1 ! c) = received (chans s ! c)"
        using arg_cong [OF m1, of "\<lambda>l. l ! c"] c len by simp
      then show ?thesis using ih Some same run_eq a0 m1 by simp
    qed
  next
    fix c v
    assume rc: "responseChan (req s) = Some c" and c: "c < length (chans s)"
      and a1: "accepted a x = [v]" and rq: "req s1 = req s"
      and m1: "map received (chans s1) = (map received (chans s))[c := received (chans s ! c) @ [v]]"
    have len: "length (chans s1) = length (chans s)"
      using arg_cong [OF m1, of length] by simp
    have "received (chans s1 ! c) = received (chans s ! c) @ [v]"
      using arg_cong [OF m1, of "\<lambda>l. l ! c"] c len by simp
    then show ?thesis using ih rc rq run_eq a1 m1 by simp
  qed
qed

lemma accepted_count:
  "length xs = length ops \<Longrightarrow>
   length (concat (map2 accepted ops xs)) \<le> length ops"
proof (induction ops arbitrary: xs)
  case Nil
  then show ?case by simp
next
  case (Cons a ops)
  then obtain x xs' where xs: "xs = x # xs'" by (cases xs) auto
  have "length (accepted a x) \<le> 1" by (cases a) auto
  moreover have "length (concat (map2 accepted ops xs')) \<le> length ops"
    using Cons.IH [of xs'] Cons.prems xs by simp
  ultimately show ?case using xs by simp
qed

subsection \<open>How many responses a request delivers\<close>

text \<open>
  C3, as stated, fails: two calls of \<^verbatim>\<open>Respond\<close> on a fresh request, each met by a
  goroutine receiving from \<^verbatim>\<open>Response()\<close>, both return nil, and the channel has
  delivered two responses.
\<close>

theorem two_Responds_deliver_two_responses:
  "fst (run [OpRespond (1::nat) False [\<lparr>receiver_waiting = True, cancel_ready = False,
                                       prefer_send = True, closes_now = False\<rparr>],
             OpRespond 2 False [\<lparr>receiver_waiting = True, cancel_ready = False,
                                  prefer_send = True, closes_now = False\<rparr>]]
          (NewDownstreamRequest ''ingest'' ''store'' None [] [] :: (nat, nat) world)) =
     [RespondResult (Returns None), RespondResult (Returns None)] \<and>
   delivered (snd (run [OpRespond (1::nat) False [\<lparr>receiver_waiting = True, cancel_ready = False,
                                       prefer_send = True, closes_now = False\<rparr>],
             OpRespond 2 False [\<lparr>receiver_waiting = True, cancel_ready = False,
                                  prefer_send = True, closes_now = False\<rparr>]]
          (NewDownstreamRequest ''ingest'' ''store'' None [] [] :: (nat, nat) world))) = [1, 2] \<and>
   \<not> length (delivered (snd (run [OpRespond (1::nat) False [\<lparr>receiver_waiting = True, cancel_ready = False,
                                       prefer_send = True, closes_now = False\<rparr>],
             OpRespond 2 False [\<lparr>receiver_waiting = True, cancel_ready = False,
                                  prefer_send = True, closes_now = False\<rparr>]]
          (NewDownstreamRequest ''ingest'' ''store'' None [] [] :: (nat, nat) world)))) \<le> 1"
  by (simp add: NewDownstreamRequest_def make_chan_def Respond_def other_goroutine_Close_def
      select_pick_def send_can_proceed_def chan_send_def delivered_def)

text \<open>
  C3, amended. A call of \<^verbatim>\<open>Respond\<close> delivers its response through the response
  channel exactly when it returns nil: then the response is the one value added to what
  receivers have taken from the request's channel, and when the call returns an error or
  blocks, no channel has delivered anything more. Over a sequence of calls the request's
  channel delivers exactly the responses of the \<^verbatim>\<open>Respond\<close> calls that returned nil, in
  their order: at most one for each call, with no bound of one for the request.
\<close>

theorem Respond_delivers_once_per_nil_return:
  assumes "consistent s"
  shows "(fst (Respond v race es s) = Returns None \<longrightarrow>
            (\<exists>c. Response (req s) = Some c \<and>
               map received (chans (snd (Respond v race es s))) =
                 (map received (chans s))[c := received (chans s ! c) @ [v]])) \<and>
         (fst (Respond v race es s) \<noteq> Returns None \<longrightarrow>
            map received (chans (snd (Respond v race es s))) = map received (chans s)) \<and>
         map received (chans (snd (run ops s))) =
           (case Response (req s) of
              None \<Rightarrow> map received (chans s)
            | Some c \<Rightarrow>
                (map received (chans s))
                  [c := received (chans s ! c) @ concat (map2 accepted ops (fst (run ops s)))]) \<and>
         length (concat (map2 accepted ops (fst (run ops s)))) \<le> length ops \<and>
         length (delivered (snd (Respond v race es s))) =
           length (delivered s) + (if fst (Respond v race es s) = Returns None then 1 else 0) \<and>
         length (delivered (snd (run ops s))) =
           length (delivered s) +
           length (filter (\<lambda>x. x = RespondResult (Returns None)) (fst (run ops s))) \<and>
         length (delivered (snd (run ops s))) \<le> length (delivered s) + length ops"
proof -
  have nil: "fst (Respond v race es s) = Returns None \<longrightarrow>
            (\<exists>c. Response (req s) = Some c \<and>
               map received (chans (snd (Respond v race es s))) =
                 (map received (chans s))[c := received (chans s ! c) @ [v]])"
    using Respond_hands_over [OF assms, of v race es] by (auto simp: Response_def)
  have err: "fst (Respond v race es s) \<noteq> Returns None \<longrightarrow>
            map received (chans (snd (Respond v race es s))) = map received (chans s)"
    using Respond_keeps [OF assms, of v race es] by simp
  have seq: "map received (chans (snd (run ops s))) =
           (case Response (req s) of
              None \<Rightarrow> map received (chans s)
            | Some c \<Rightarrow>
                (map received (chans s))
                  [c := received (chans s ! c) @ concat (map2 accepted ops (fst (run ops s)))])"
    using run_received [OF assms, of ops] by (simp add: Response_def)
  have one: "length (delivered (snd (Respond v race es s))) =
           length (delivered s) + (if fst (Respond v race es s) = Returns None then 1 else 0)"
    using Respond_ok [OF assms, of v race es] by simp
  have many: "length (delivered (snd (run ops s))) =
           length (delivered s) +
           length (filter (\<lambda>x. x = RespondResult (Returns None)) (fst (run ops s)))"
    and len: "length (fst (run ops s)) = length ops"
    using run_ok [OF assms, of ops] by simp_all
  have cnt: "length (concat (map2 accepted ops (fst (run ops s)))) \<le> length ops"
    using accepted_count [OF len] .
  have "length (filter (\<lambda>x. x = RespondResult (Returns None)) (fst (run ops s))) \<le> length ops"
    using length_filter_le [of "\<lambda>x. x = RespondResult (Returns None)" "fst (run ops s)"] len
    by simp
  then have le: "length (delivered (snd (run ops s))) \<le> length (delivered s) + length ops"
    using many by simp
  from nil err seq cnt one many le show ?thesis by (intro conjI)
qed

theorem Respond_delivers_once_per_nil_return_witness:
  "consistent (NewDownstreamRequest ''ingest'' ''store'' None [] [] :: (nat, nat) world) \<and>
   Response (req (NewDownstreamRequest ''ingest'' ''store'' None [] [] :: (nat, nat) world)) = Some 0 \<and>
   fst (run
      [OpRespond (1::nat) False [\<lparr>receiver_waiting = False, cancel_ready = True,
                                  prefer_send = True, closes_now = False\<rparr>],
       OpRespond 2 False [\<lparr>receiver_waiting = True, cancel_ready = False,
                           prefer_send = True, closes_now = False\<rparr>],
       OpRespond 3 False []]
      (NewDownstreamRequest ''ingest'' ''store'' None [] [] :: (nat, nat) world)) =
     [RespondResult (Returns (Some ''response is canclled'')), RespondResult (Returns None),
      RespondResult Blocks] \<and>
   map received (chans (snd (run
      [OpRespond (1::nat) False [\<lparr>receiver_waiting = False, cancel_ready = True,
                                  prefer_send = True, closes_now = False\<rparr>],
       OpRespond 2 False [\<lparr>receiver_waiting = True, cancel_ready = False,
                           prefer_send = True, closes_now = False\<rparr>],
       OpRespond 3 False []]
      (NewDownstreamRequest ''ingest'' ''store'' None [] [] :: (nat, nat) world)))) = [[2]]"
proof -
  let ?s = "NewDownstreamRequest ''ingest'' ''store'' None [] [] :: (nat, nat) world"
  let ?ops = "[OpRespond (1::nat) False [\<lparr>receiver_waiting = False, cancel_ready = True,
                                  prefer_send = True, closes_now = False\<rparr>],
       OpRespond 2 False [\<lparr>receiver_waiting = True, cancel_ready = False,
                           prefer_send = True, closes_now = False\<rparr>],
       OpRespond 3 False []]"
  have w: "consistent ?s"
    by (simp add: consistent_def NewDownstreamRequest_def make_chan_def)
  have rs: "Response (req ?s) = Some 0"
    by (simp add: Response_def NewDownstreamRequest_def make_chan_def)
  have r: "fst (run ?ops ?s) =
     [RespondResult (Returns (Some ''response is canclled'')), RespondResult (Returns None),
      RespondResult Blocks]"
    by (simp add: NewDownstreamRequest_def make_chan_def Respond_def other_goroutine_Close_def
      select_pick_def send_can_proceed_def chan_send_def cancelled_error_def)
  have m0: "map received (chans ?s) = [[]]" "received (chans ?s ! 0) = []"
    by (simp_all add: NewDownstreamRequest_def make_chan_def)
  have "map received (chans (snd (run ?ops ?s))) = [[2]]"
    using Respond_delivers_once_per_nil_return [OF w, of 1 False "[]" ?ops]
    unfolding rs r by (simp del: run.simps add: m0)
  with w rs r show ?thesis by (simp del: run.simps)
qed

subsection \<open>Overlapping calls of Close\<close>

lemma set_lock_set_lock [simp]: "set_lock b (set_lock b' s) = set_lock b s"
  by (simp add: set_lock_def)

lemma set_lock_free: "consistent s \<Longrightarrow> set_lock False s = s"
  by (simp add: set_lock_def consistent_def)

lemma closers_inv_start:
  assumes "consistent s0"
  shows "closers_inv s0 n None (start_closers n s0)"
  using assms
  by (simp add: closers_inv_def start_closers_def before_close_def set_lock_free)

lemma holder_is_critical:
  assumes "closers_inv s0 n h cs" and "i < n" and "critical (pcs cs ! i)"
  shows "h = Some i"
  using assms by (simp add: closers_inv_def)

lemma closers_inv_parts:
  assumes "closers_inv s0 n h cs"
  shows "crashed cs = None" and "length (pcs cs) = n"
    and "\<forall>k < n. critical (pcs cs ! k) = (h = Some k)"
    and "before_close s0 h cs \<or> just_closed s0 h cs \<or> after_close s0 h cs"
    and "case h of None \<Rightarrow> True | Some j \<Rightarrow> j < n"
  using assms by (simp_all add: closers_inv_def)

lemma critical_update:
  assumes "\<forall>k < n. critical (ps ! k) = (h = Some k)" and "length ps = n" and "i < n"
    and "h = None \<or> h = Some i" and "critical p = (h' = Some i)" and "h' = None \<or> h' = Some i"
  shows "\<forall>k < n. critical (ps[i := p] ! k) = (h' = Some k)"
proof (intro allI impI)
  fix k
  assume k: "k < n"
  show "critical (ps[i := p] ! k) = (h' = Some k)"
  proof (cases "k = i")
    case True
    then show ?thesis using assms(2,3,5) by simp
  next
    case False
    then have "\<not> critical (ps ! k)" using assms(1,4) k by auto
    then show ?thesis using False assms(6) by auto
  qed
qed

lemma closers_inv_moved:
  assumes "closers_inv s0 n h cs" and "i < n" and "h = None \<or> h = Some i"
    and "critical p = (h' = Some i)" and "h' = None \<or> h' = Some i"
    and "crashed cs' = None" and "pcs cs' = (pcs cs)[i := p]"
    and "before_close s0 h' cs' \<or> just_closed s0 h' cs' \<or> after_close s0 h' cs'"
  shows "closers_inv s0 n h' cs'"
proof -
  note p = closers_inv_parts [OF assms(1)]
  have "\<forall>k < n. critical (pcs cs' ! k) = (h' = Some k)"
    using critical_update [OF p(3) p(2) assms(2) assms(3) assms(4) assms(5)] assms(7) by simp
  moreover have "length (pcs cs') = n" using p(2) assms(7) by simp
  moreover have "case h' of None \<Rightarrow> True | Some j \<Rightarrow> j < n"
    using assms(2,5) by auto
  ultimately show ?thesis using assms(6,8) by (simp add: closers_inv_def)
qed

lemma others_not_critical:
  assumes "closers_inv s0 n (Some i) cs" and "k < n" and "k \<noteq> i"
  shows "pcs cs ! k = AtLock \<or> pcs cs ! k = Finished"
proof -
  have "\<not> critical (pcs cs ! k)" using closers_inv_parts(3) [OF assms(1)] assms(2,3) by simp
  then show ?thesis by (cases "pcs cs ! k") simp_all
qed

lemma step_AtCheck:
  assumes "consistent s0" and "closers_inv s0 n (Some i) cs" and "i < n" and "pcs cs ! i = AtCheck"
  shows "closers_inv s0 n (Some i) (close_step i cs)"
    and "pcs (close_step i cs) ! i \<noteq> pcs cs ! i"
proof -
  note p = closers_inv_parts [OF assms(2)]
  have nj: "\<not> just_closed s0 (Some i) cs"
    using assms(4) by (auto simp: just_closed_def)
  have both: "closers_inv s0 n (Some i) (close_step i cs) \<and>
      pcs (close_step i cs) ! i \<noteq> pcs cs ! i"
  proof (cases "responseChan (req (shared cs)) = None")
    case True
    have st: "close_step i cs = cs\<lparr>pcs := (pcs cs)[i := AtUnlock]\<rparr>"
      using assms(3,4) p(1,2) True by (simp add: close_step_def)
    have ph: "before_close s0 (Some i) (close_step i cs) \<or> after_close s0 (Some i) (close_step i cs)"
    proof (cases "before_close s0 (Some i) cs")
      case b: True
      then have r0: "responseChan (req s0) = None" using True by (simp add: before_close_def)
      have "before_close s0 (Some i) (close_step i cs)"
        unfolding st using b r0 p(2) assms(3)
        by (simp add: before_close_def nth_list_update)
      then show ?thesis by simp
    next
      case False
      then have a: "after_close s0 (Some i) cs" using p(4) nj by simp
      have "after_close s0 (Some i) (close_step i cs)"
        unfolding st using a p(2) assms(3)
        by (simp add: after_close_def nth_list_update)
      then show ?thesis by simp
    qed
    have "closers_inv s0 n (Some i) (close_step i cs)"
      using ph by (intro closers_inv_moved [OF assms(2,3), where p = AtUnlock])
         (auto simp: st p(1))
    moreover have "pcs (close_step i cs) ! i \<noteq> pcs cs ! i"
      unfolding st using assms(3,4) p(2) by simp
    ultimately show ?thesis by simp
  next
    case False
    have st: "close_step i cs = cs\<lparr>pcs := (pcs cs)[i := AtCloseChan]\<rparr>"
      using assms(3,4) p(1,2) False by (simp add: close_step_def)
    have na: "\<not> after_close s0 (Some i) cs"
      using False Close_consistent(3) [OF assms(1)] by (auto simp: after_close_def)
    have b: "before_close s0 (Some i) cs" using p(4) nj na by simp
    then have r0: "responseChan (req s0) \<noteq> None"
      using False by (simp add: before_close_def)
    have ph: "before_close s0 (Some i) (close_step i cs)"
      unfolding st using b r0 p(2) assms(3)
      by (auto simp: before_close_def nth_list_update)
    have "closers_inv s0 n (Some i) (close_step i cs)"
      using ph by (intro closers_inv_moved [OF assms(2,3), where p = AtCloseChan])
         (auto simp: st p(1))
    moreover have "pcs (close_step i cs) ! i \<noteq> pcs cs ! i"
      unfolding st using assms(3,4) p(2) by simp
    ultimately show ?thesis by simp
  qed
  from both show "closers_inv s0 n (Some i) (close_step i cs)" by simp
  from both show "pcs (close_step i cs) ! i \<noteq> pcs cs ! i" by simp
qed


lemma step_AtCloseChan:
  assumes "consistent s0" and "closers_inv s0 n (Some i) cs" and "i < n" and "pcs cs ! i = AtCloseChan"
  shows "closers_inv s0 n (Some i) (close_step i cs)"
    and "pcs (close_step i cs) ! i \<noteq> pcs cs ! i"
proof -
  note p = closers_inv_parts [OF assms(2)]
  have nj: "\<not> just_closed s0 (Some i) cs"
    using assms(4) by (auto simp: just_closed_def)
  have na: "\<not> after_close s0 (Some i) cs"
    using assms(3,4) p(2) by (auto simp: after_close_def)
  have b: "before_close s0 (Some i) cs" using p(4) nj na by simp
  have "responseChan (req s0) \<noteq> None"
    using b assms(3,4) p(2) by (auto simp: before_close_def split: if_splits)
  then obtain c where c: "responseChan (req s0) = Some c" by auto
  have sh: "shared cs = set_lock True s0" and n0: "n_closed cs = 0"
    using b by (simp_all add: before_close_def)
  have cc: "close_chan (responseChan (req (shared cs))) (chans (shared cs)) =
      (Returns (), (chans s0)[c := (chans s0 ! c)\<lparr>closed := True\<rparr>])"
    using assms(1) c sh by (simp add: close_chan_def consistent_def)
  have st: "close_step i cs =
      cs\<lparr>shared := (shared cs)\<lparr>chans := (chans s0)[c := (chans s0 ! c)\<lparr>closed := True\<rparr>]\<rparr>,
         pcs := (pcs cs)[i := AtSetNil], n_closed := Suc (n_closed cs)\<rparr>"
    using assms(3,4) p(1,2) cc by (simp add: close_step_def)
  have ph: "just_closed s0 (Some i) (close_step i cs)"
    unfolding st just_closed_def
    using c sh n0 p(2) assms(3)
    by (intro exI [of _ c] exI [of _ i]) (simp add: set_lock_def)
  show "closers_inv s0 n (Some i) (close_step i cs)"
    using ph by (intro closers_inv_moved [OF assms(2,3), where p = AtSetNil])
       (auto simp: st p(1))
  show "pcs (close_step i cs) ! i \<noteq> pcs cs ! i"
    unfolding st using assms(3,4) p(2) by simp
qed

lemma step_AtSetNil:
  assumes "consistent s0" and "closers_inv s0 n (Some i) cs" and "i < n" and "pcs cs ! i = AtSetNil"
  shows "closers_inv s0 n (Some i) (close_step i cs)"
    and "pcs (close_step i cs) ! i \<noteq> pcs cs ! i"
proof -
  note p = closers_inv_parts [OF assms(2)]
  have nb: "\<not> before_close s0 (Some i) cs"
    using assms(3,4) p(2) by (auto simp: before_close_def)
  have na: "\<not> after_close s0 (Some i) cs"
    using assms(3,4) p(2) by (auto simp: after_close_def)
  have j: "just_closed s0 (Some i) cs" using p(4) nb na by simp
  then obtain c where c: "responseChan (req s0) = Some c"
    and sh: "shared cs = set_lock True (s0\<lparr>chans := (chans s0)[c := (chans s0 ! c)\<lparr>closed := True\<rparr>]\<rparr>)"
    and n1: "n_closed cs = 1"
    by (auto simp: just_closed_def)
  have st: "close_step i cs =
      cs\<lparr>shared := (shared cs)\<lparr>req := (req (shared cs))\<lparr>responseChan := None\<rparr>\<rparr>,
         pcs := (pcs cs)[i := AtUnlock]\<rparr>"
    using assms(3,4) p(1,2) by (simp add: close_step_def)
  have others: "pcs cs ! k \<noteq> AtCloseChan \<and> pcs cs ! k \<noteq> AtSetNil" if "k < n" "k \<noteq> i" for k
    using others_not_critical [OF assms(2) that] by auto
  have cl: "snd (Close s0) =
      s0\<lparr>req := (req s0)\<lparr>responseChan := None\<rparr>,
         chans := (chans s0)[c := (chans s0 ! c)\<lparr>closed := True\<rparr>]\<rparr>"
    using Close_open [OF assms(1) c] by simp
  have shd: "shared (close_step i cs) = set_lock True (snd (Close s0))"
    unfolding st cl using sh by (simp add: set_lock_def)
  have pc: "\<forall>k < length (pcs (close_step i cs)).
      pcs (close_step i cs) ! k \<noteq> AtCloseChan \<and> pcs (close_step i cs) ! k \<noteq> AtSetNil"
    unfolding st using others p(2) assms(3) by (auto simp: nth_list_update)
  have nc: "n_closed (close_step i cs) = 1" unfolding st using n1 by simp
  have ph: "after_close s0 (Some i) (close_step i cs)"
    unfolding after_close_def using c shd pc nc by simp
  show "closers_inv s0 n (Some i) (close_step i cs)"
    using ph by (intro closers_inv_moved [OF assms(2,3), where p = AtUnlock])
       (auto simp: st p(1))
  show "pcs (close_step i cs) ! i \<noteq> pcs cs ! i"
    unfolding st using assms(3,4) p(2) by simp
qed

lemma step_AtUnlock:
  assumes "consistent s0" and "closers_inv s0 n (Some i) cs" and "i < n" and "pcs cs ! i = AtUnlock"
  shows "closers_inv s0 n None (close_step i cs)"
    and "pcs (close_step i cs) ! i \<noteq> pcs cs ! i"
proof -
  note p = closers_inv_parts [OF assms(2)]
  have nj: "\<not> just_closed s0 (Some i) cs"
    using assms(4) by (auto simp: just_closed_def)
  have locked: "responseChanLock (req (shared cs))"
    using p(4) nj by (auto simp: before_close_def after_close_def)
  have st: "close_step i cs =
      cs\<lparr>shared := set_lock False (shared cs), pcs := (pcs cs)[i := Finished]\<rparr>"
    using assms(3,4) p(1,2) locked by (simp add: close_step_def)
  have ph: "before_close s0 None (close_step i cs) \<or> after_close s0 None (close_step i cs)"
  proof (cases "before_close s0 (Some i) cs")
    case True
    then have "responseChan (req s0) = None"
      using assms(3,4) p(2) by (auto simp: before_close_def split: if_splits)
    then have "before_close s0 None (close_step i cs)"
      using True p(2) assms(3) unfolding st by (auto simp: before_close_def nth_list_update)
    then show ?thesis by simp
  next
    case False
    then have "after_close s0 (Some i) cs" using p(4) nj by simp
    then have "after_close s0 None (close_step i cs)"
      using p(2) assms(3) unfolding st by (auto simp: after_close_def nth_list_update)
    then show ?thesis by simp
  qed
  show "closers_inv s0 n None (close_step i cs)"
    using ph by (intro closers_inv_moved [OF assms(2,3), where p = Finished])
       (auto simp: st p(1))
  show "pcs (close_step i cs) ! i \<noteq> pcs cs ! i"
    unfolding st using assms(3,4) p(2) by simp
qed

lemma step_AtLock_free:
  assumes "consistent s0" and "closers_inv s0 n None cs" and "i < n" and "pcs cs ! i = AtLock"
  shows "closers_inv s0 n (Some i) (close_step i cs)"
    and "pcs (close_step i cs) ! i \<noteq> pcs cs ! i"
proof -
  note p = closers_inv_parts [OF assms(2)]
  have nj: "\<not> just_closed s0 None cs" by (simp add: just_closed_def)
  have free: "\<not> responseChanLock (req (shared cs))"
    using p(4) nj by (auto simp: before_close_def after_close_def)
  have st: "close_step i cs = cs\<lparr>shared := set_lock True (shared cs), pcs := (pcs cs)[i := AtCheck]\<rparr>"
    using assms(3,4) p(1,2) free by (simp add: close_step_def)
  have ph: "before_close s0 (Some i) (close_step i cs) \<or> after_close s0 (Some i) (close_step i cs)"
  proof (cases "before_close s0 None cs")
    case True
    then have "before_close s0 (Some i) (close_step i cs)"
      using p(2) assms(3) unfolding st by (auto simp: before_close_def nth_list_update)
    then show ?thesis by simp
  next
    case False
    then have "after_close s0 None cs" using p(4) nj by simp
    then have "after_close s0 (Some i) (close_step i cs)"
      using p(2) assms(3) unfolding st by (auto simp: after_close_def nth_list_update)
    then show ?thesis by simp
  qed
  show "closers_inv s0 n (Some i) (close_step i cs)"
    using ph by (intro closers_inv_moved [OF assms(2,3), where p = AtCheck])
       (auto simp: st p(1))
  show "pcs (close_step i cs) ! i \<noteq> pcs cs ! i"
    unfolding st using assms(3,4) p(2) by simp
qed

lemma step_AtLock_held:
  assumes "closers_inv s0 n (Some j) cs" and "i < n" and "pcs cs ! i = AtLock"
  shows "close_step i cs = cs"
proof -
  note p = closers_inv_parts [OF assms(1)]
  have "responseChanLock (req (shared cs))"
    using p(4) by (auto simp: before_close_def just_closed_def after_close_def)
  then show ?thesis using assms(2,3) p(1,2) by (simp add: close_step_def)
qed

lemma close_step_inv:
  assumes "consistent s0" and "closers_inv s0 n h cs"
  shows "\<exists>h'. closers_inv s0 n h' (close_step i cs)"
proof (cases "i < n")
  case False
  then have "close_step i cs = cs"
    using closers_inv_parts(2) [OF assms(2)] by (simp add: close_step_def)
  then show ?thesis using assms(2) by auto
next
  case True
  note p = closers_inv_parts [OF assms(2)]
  show ?thesis
  proof (cases "pcs cs ! i")
    case AtLock
    show ?thesis
    proof (cases h)
      case None
      then show ?thesis using step_AtLock_free(1) [OF assms(1) _ True AtLock] assms(2) by blast
    next
      case (Some j)
      then show ?thesis using step_AtLock_held [OF _ True AtLock] assms(2) by metis
    qed
  next
    case AtCheck
    then have "h = Some i" using holder_is_critical [OF assms(2) True] by simp
    then show ?thesis using step_AtCheck(1) [OF assms(1) _ True AtCheck] assms(2) by blast
  next
    case AtCloseChan
    then have "h = Some i" using holder_is_critical [OF assms(2) True] by simp
    then show ?thesis using step_AtCloseChan(1) [OF assms(1) _ True AtCloseChan] assms(2) by blast
  next
    case AtSetNil
    then have "h = Some i" using holder_is_critical [OF assms(2) True] by simp
    then show ?thesis using step_AtSetNil(1) [OF assms(1) _ True AtSetNil] assms(2) by blast
  next
    case AtUnlock
    then have "h = Some i" using holder_is_critical [OF assms(2) True] by simp
    then show ?thesis using step_AtUnlock(1) [OF assms(1) _ True AtUnlock] assms(2) by blast
  next
    case Finished
    then have "close_step i cs = cs" using True p(1,2) by (simp add: close_step_def)
    then show ?thesis using assms(2) by auto
  qed
qed

lemma run_closers_inv:
  assumes "consistent s0" and "closers_inv s0 n h cs"
  shows "\<exists>h'. closers_inv s0 n h' (run_closers sched cs)"
  using assms(2)
proof (induction sched arbitrary: h cs)
  case Nil
  then show ?case by auto
next
  case (Cons i sched)
  from close_step_inv [OF assms(1) Cons.prems] obtain h1 where
    "closers_inv s0 n h1 (close_step i cs)" by blast
  from Cons.IH [OF this] show ?case by simp
qed


lemma closers_inv_safe:
  assumes "closers_inv s0 n h cs"
  shows "crashed cs = None" and "n_closed cs \<le> 1"
  using closers_inv_parts(1,4) [OF assms]
  by (auto simp: before_close_def just_closed_def after_close_def)

lemma closers_inv_finished:
  assumes "consistent s0" and "closers_inv s0 n h cs" and "all_finished cs" and "0 < n"
  shows "shared cs = snd (Close s0)"
    and "n_closed cs = (if responseChan (req s0) = None then 0 else 1)"
proof -
  note p = closers_inv_parts [OF assms(2)]
  have fin: "pcs cs ! k = Finished" if "k < n" for k
    using assms(3) p(2) that by (simp add: all_finished_def list_all_length)
  have h: "h = None"
  proof (cases h)
    case None
    then show ?thesis .
  next
    case (Some j)
    then have "j < n" using p(5) by simp
    then have "critical (pcs cs ! j)" using p(3) Some by simp
    then show ?thesis using fin [OF \<open>j < n\<close>] by simp
  qed
  have nj: "\<not> just_closed s0 h cs" using h by (simp add: just_closed_def)
  have both: "shared cs = snd (Close s0) \<and>
      n_closed cs = (if responseChan (req s0) = None then 0 else 1)"
  proof (cases "before_close s0 h cs")
    case True
    have "responseChan (req s0) = None"
    proof (rule ccontr)
      assume "responseChan (req s0) \<noteq> None"
      then have "pcs cs ! 0 \<noteq> Finished"
        using True p(2) assms(4) by (auto simp: before_close_def)
      then show False using fin [OF assms(4)] by simp
    qed
    moreover from this have "snd (Close s0) = s0"
      using Close_nil [of s0] assms(1) by (simp add: consistent_def)
    ultimately show ?thesis
      using True h set_lock_free [OF assms(1)] by (simp add: before_close_def)
  next
    case False
    then have a: "after_close s0 h cs" using p(4) nj by simp
    have "set_lock False (snd (Close s0)) = snd (Close s0)"
      using set_lock_free [OF Close_consistent(2) [OF assms(1)]] .
    then show ?thesis using a h by (auto simp: after_close_def)
  qed
  from both show "shared cs = snd (Close s0)" by simp
  from both show "n_closed cs = (if responseChan (req s0) = None then 0 else 1)" by simp
qed

lemma closers_inv_progress:
  assumes "consistent s0" and "closers_inv s0 n h cs"
  shows "all_finished cs \<or> (\<exists>i < n. close_step i cs \<noteq> cs)"
proof (cases h)
  case (Some i)
  note p = closers_inv_parts [OF assms(2)]
  have i: "i < n" using p(5) Some by simp
  have inv: "closers_inv s0 n (Some i) cs" using assms(2) Some by simp
  have "critical (pcs cs ! i)" using p(3) i Some by simp
  then have "pcs (close_step i cs) ! i \<noteq> pcs cs ! i"
    using step_AtCheck(2) [OF assms(1) inv i] step_AtCloseChan(2) [OF assms(1) inv i]
      step_AtSetNil(2) [OF assms(1) inv i] step_AtUnlock(2) [OF assms(1) inv i]
    by (cases "pcs cs ! i") simp_all
  then have "close_step i cs \<noteq> cs" by auto
  then show ?thesis using i by blast
next
  case None
  note p = closers_inv_parts [OF assms(2)]
  have inv: "closers_inv s0 n None cs" using assms(2) None by simp
  show ?thesis
  proof (cases "all_finished cs")
    case True
    then show ?thesis by simp
  next
    case False
    then obtain k where k: "k < n" "pcs cs ! k \<noteq> Finished"
      using p(2) by (auto simp: all_finished_def list_all_length)
    have "\<not> critical (pcs cs ! k)" using p(3) k(1) None by simp
    then have "pcs cs ! k = AtLock" using k(2) by (cases "pcs cs ! k") simp_all
    then have "pcs (close_step k cs) ! k \<noteq> pcs cs ! k"
      using step_AtLock_free(2) [OF assms(1) inv k(1)] by simp
    then have "close_step k cs \<noteq> cs" by auto
    then show ?thesis using k(1) by blast
  qed
qed

lemma run_Closes:
  assumes "consistent s"
  shows "run (replicate (Suc k) OpClose) s =
           (replicate (Suc k) (CloseResult (Returns ())), snd (Close s))"
proof -
  obtain s1 where c: "Close s = (Returns (), s1)"
    using Close_consistent(1) [OF assms] by (cases "Close s") simp
  have nil: "responseChan (req s1) = None" and free: "\<not> responseChanLock (req s1)"
    using Close_Returns [OF c] by simp_all
  have "run (replicate k OpClose) s1 = (replicate k (CloseResult (Returns ())), s1)"
    using run_closed [OF nil free, of "replicate k OpClose"] by simp
  then show ?thesis using c by simp
qed

text \<open>
  C2. Any number \<open>n\<close> of goroutines call \<^verbatim>\<open>Close\<close> on a request in a state between
  calls, their statements interleaved by any schedule. No \<^verbatim>\<open>close\<close> and no
  \<^verbatim>\<open>Unlock\<close> ever panics, \<^verbatim>\<open>close\<close> goes through at most once, and as long as a
  call has not returned some goroutine can take a step. When all calls have returned, the
  request and the heaps are what one \<^verbatim>\<open>Close\<close> leaves behind, and the channel was closed
  exactly once if the request was open and never if it was not. One after the other,
  every \<^verbatim>\<open>Close\<close> returns, and each call after the first changes nothing.
\<close>

theorem Close_is_safe_and_idempotent:
  assumes "consistent s"
  shows "crashed (run_closers sched (start_closers n s)) = None \<and>
         n_closed (run_closers sched (start_closers n s)) \<le> 1 \<and>
         (all_finished (run_closers sched (start_closers n s)) \<or>
          (\<exists>i < n. close_step i (run_closers sched (start_closers n s)) \<noteq>
                     run_closers sched (start_closers n s))) \<and>
         (all_finished (run_closers sched (start_closers n s)) \<and> 0 < n \<longrightarrow>
            shared (run_closers sched (start_closers n s)) = snd (Close s) \<and>
            n_closed (run_closers sched (start_closers n s)) =
              (if responseChan (req s) = None then 0 else 1)) \<and>
         fst (Close s) = Returns () \<and>
         Close (snd (Close s)) = (Returns (), snd (Close s)) \<and>
         run (replicate (Suc k) OpClose) s =
           (replicate (Suc k) (CloseResult (Returns ())), snd (Close s))"
proof -
  let ?cs = "run_closers sched (start_closers n s)"
  obtain h where inv: "closers_inv s n h ?cs"
    using run_closers_inv [OF assms closers_inv_start [OF assms]] by blast
  have safe: "crashed ?cs = None" "n_closed ?cs \<le> 1"
    using closers_inv_safe [OF inv] by simp_all
  have prog: "all_finished ?cs \<or> (\<exists>i < n. close_step i ?cs \<noteq> ?cs)"
    using closers_inv_progress [OF assms inv] .
  have fin: "all_finished ?cs \<and> 0 < n \<longrightarrow>
      shared ?cs = snd (Close s) \<and>
      n_closed ?cs = (if responseChan (req s) = None then 0 else 1)"
    using closers_inv_finished [OF assms inv] by simp
  have ret: "fst (Close s) = Returns ()" using Close_consistent(1) [OF assms] .
  have again: "Close (snd (Close s)) = (Returns (), snd (Close s))"
    using Close_nil [of "snd (Close s)"] Close_consistent(2,3) [OF assms]
    by (simp add: consistent_def)
  from safe prog fin ret again run_Closes [OF assms, of k] show ?thesis by blast
qed

theorem Close_is_safe_and_idempotent_witness:
  "consistent (NewDownstreamRequest ''ingest'' ''store'' None [] [] :: (nat, nat) world) \<and>
   pcs (run_closers [0, 1, 0, 0, 1, 0, 0, 1, 1, 1]
         (start_closers 2 (NewDownstreamRequest ''ingest'' ''store'' None [] [] :: (nat, nat) world))) =
     [Finished, Finished] \<and>
   crashed (run_closers [0, 1, 0, 0, 1, 0, 0, 1, 1, 1]
         (start_closers 2 (NewDownstreamRequest ''ingest'' ''store'' None [] [] :: (nat, nat) world))) = None \<and>
   n_closed (run_closers [0, 1, 0, 0, 1, 0, 0, 1, 1, 1]
         (start_closers 2 (NewDownstreamRequest ''ingest'' ''store'' None [] [] :: (nat, nat) world))) = 1 \<and>
   shared (run_closers [0, 1, 0, 0, 1, 0, 0, 1, 1, 1]
         (start_closers 2 (NewDownstreamRequest ''ingest'' ''store'' None [] [] :: (nat, nat) world))) =
     \<lparr>req = \<lparr>upstreamPipelineName = ''ingest'', downstreamPipelineName = ''store'', data = None,
            responseChanLock = False, responseChan = None\<rparr>,
      chans = [\<lparr>cap = 0, buf = [], closed = True, received = []\<rparr>], mapheap = []\<rparr> \<and>
   run (replicate (Suc 2) OpClose)
       (NewDownstreamRequest ''ingest'' ''store'' None [] [] :: (nat, nat) world) =
     ([CloseResult (Returns ()), CloseResult (Returns ()), CloseResult (Returns ())],
      \<lparr>req = \<lparr>upstreamPipelineName = ''ingest'', downstreamPipelineName = ''store'', data = None,
            responseChanLock = False, responseChan = None\<rparr>,
      chans = [\<lparr>cap = 0, buf = [], closed = True, received = []\<rparr>], mapheap = []\<rparr>)"
proof -
  let ?s = "NewDownstreamRequest ''ingest'' ''store'' None [] [] :: (nat, nat) world"
  let ?cs = "run_closers [0, 1, 0, 0, 1, 0, 0, 1, 1, 1] (start_closers 2 ?s)"
  let ?end = "\<lparr>req = \<lparr>upstreamPipelineName = ''ingest'', downstreamPipelineName = ''store'', data = None,
            responseChanLock = False, responseChan = None\<rparr>,
      chans = [\<lparr>cap = 0, buf = [], closed = True, received = []\<rparr>], mapheap = []\<rparr> :: (nat, nat) world"
  have w: "consistent ?s"
    by (simp add: consistent_def NewDownstreamRequest_def make_chan_def)
  have cs: "?cs = \<lparr>shared = ?end, pcs = [Finished, Finished], n_closed = 1, crashed = None\<rparr>"
    by (simp add: start_closers_def NewDownstreamRequest_def make_chan_def close_step_def
        close_chan_def set_lock_def numeral_2_eq_2)
  have cl: "snd (Close ?s) = ?end"
    by (simp add: Close_def NewDownstreamRequest_def make_chan_def close_chan_def set_lock_def)
  have fin: "all_finished ?cs" unfolding cs by (simp add: all_finished_def)
  have rep: "replicate 3 (CloseResult (Returns ())) =
      [CloseResult (Returns ()), CloseResult (Returns ()), CloseResult (Returns ())]"
    by (simp add: numeral_3_eq_3)
  show ?thesis
    using w cl fin rep Close_is_safe_and_idempotent [OF w, of "[0, 1, 0, 0, 1, 0, 0, 1, 1, 1]" 2 2]
    unfolding cs by (simp del: run.simps replicate.simps)
qed

subsection \<open>StatisticsKind\<close>

text \<open>
  C10, as stated, fails: \<^verbatim>\<open>StatisticsKind\<close> is a string type, and the empty string (its
  zero value) is a value of the type that is none of the three constants.
\<close>

theorem StatisticsKind_has_other_values:
  "StatisticsKind [] \<noteq> SuccessStatistics \<and> StatisticsKind [] \<noteq> FailureStatistics \<and>
   StatisticsKind [] \<noteq> AllStatistics"
  by (simp add: SuccessStatistics_def FailureStatistics_def AllStatistics_def)

text \<open>
  C10, amended. The three declared constants \<^verbatim>\<open>SuccessStatistics\<close>,
  \<^verbatim>\<open>FailureStatistics\<close> and \<^verbatim>\<open>AllStatistics\<close> are the strings of their names and are
  pairwise distinct.
\<close>

theorem StatisticsKind_constants_distinct:
  "SuccessStatistics = StatisticsKind ''SuccessStatistics'' \<and>
   FailureStatistics = StatisticsKind ''FailureStatistics'' \<and>
   AllStatistics = StatisticsKind ''AllStatistics'' \<and>
   SuccessStatistics \<noteq> FailureStatistics \<and> SuccessStatistics \<noteq> AllStatistics \<and>
   FailureStatistics \<noteq> AllStatistics"
  by (simp add: SuccessStatistics_def FailureStatistics_def AllStatistics_def)

end
